theory Spec2Isabelle
  imports Main "HOL-Library.Word"
begin

unbundle bit_operations_syntax

section \<open>Basic types: bytes, strings, exceptions\<close>

text \<open>
  The model follows \<^verbatim>\<open>src/src/Index.cpp\<close>. A \<^verbatim>\<open>uint8_t\<close> is an \<open>8 word\<close>, an
  \<^verbatim>\<open>int64_t\<close> that is computed with is a \<open>64 word\<close> (two's complement, wrapping), a
  \<^verbatim>\<open>std::string\<close> or a \<^verbatim>\<open>const char *\<close> with its length is a \<open>string\<close>. The counters
  \<^verbatim>\<open>totalIn\<close>, \<^verbatim>\<open>totalOut\<close>, line numbers and offsets are \<^verbatim>\<open>uint64_t\<close> values that
  count bytes and lines of one file; they are natural numbers here. A C++ exception is a
  value of the type \<open>error\<close>, and a function that can throw returns \<open>error + 'a\<close>.
\<close>

type_synonym byte = "8 word"

datatype error =
    InvalidArgument string
  | RuntimeError string
  | ZlibError int
  | SqliteError string

text \<open>The constants of the anonymous namespace (lines 28 to 32).\<close>

definition DefaultIndexEvery :: nat where
  "DefaultIndexEvery = 32 * 1024 * 1024"

definition WindowSize :: nat where
  "WindowSize = 32768"

definition ChunkSize :: nat where
  "ChunkSize = 16384"

text \<open>The return codes of zlib that the source names.\<close>

definition Z_OK :: int where "Z_OK = 0"
definition Z_STREAM_END :: int where "Z_STREAM_END = 1"
definition Z_NEED_DICT :: int where "Z_NEED_DICT = 2"
definition Z_ERRNO :: int where "Z_ERRNO = - 1"
definition Z_DATA_ERROR :: int where "Z_DATA_ERROR = - 3"
definition Z_MEM_ERROR :: int where "Z_MEM_ERROR = - 4"

text \<open>
  \<^verbatim>\<open>zError\<close> is zlib's table of messages; \<^verbatim>\<open>ZlibError\<close> (lines 40 to 44) prefixes it.
\<close>

definition zError :: "int \<Rightarrow> string" where
  "zError r =
     (if r = 2 then ''need dictionary''
      else if r = 1 then ''stream end''
      else if r = 0 then ''''
      else if r = - 1 then ''file error''
      else if r = - 2 then ''stream error''
      else if r = - 3 then ''data error''
      else if r = - 4 then ''insufficient memory''
      else if r = - 5 then ''buffer error''
      else if r = - 6 then ''incompatible version''
      else '''')"

fun what :: "error \<Rightarrow> string" where
  "what (InvalidArgument m) = m"
| "what (RuntimeError m) = m"
| "what (ZlibError r) = ''Error from zlib : '' @ zError r"
| "what (SqliteError m) = m"

text \<open>\<^verbatim>\<open>std::to_string\<close> on an unsigned value: its decimal digits.\<close>

definition digit_char :: "nat \<Rightarrow> char" where
  "digit_char d = ''0123456789'' ! d"

fun to_string :: "nat \<Rightarrow> string" where
  "to_string n =
     (if n < 10 then [digit_char n]
      else to_string (n div 10) @ [digit_char (n mod 10)])"

declare to_string.simps [simp del]

text \<open>\<^verbatim>\<open>std::to_string\<close> on a signed value (\<^verbatim>\<open>st_size\<close>, \<^verbatim>\<open>st_mtime\<close>).\<close>

definition to_string_int :: "int \<Rightarrow> string" where
  "to_string_int i = (if i < 0 then CHR ''-'' # to_string (nat (- i)) else to_string (nat i))"

section \<open>The key handlers (lines 91 to 175)\<close>

text \<open>
  A row of a table \<^verbatim>\<open>index_<name>\<close>: the key (TEXT or INTEGER), the line and the offset the
  indexer gave.
\<close>

datatype key = TextKey string | IntKey "64 word"

type_synonym index_row = "key \<times> nat \<times> nat"

text \<open>
  A \<^verbatim>\<open>LineIndexer\<close> is not part of the source file; it is a parameter. On a line it calls
  \<^verbatim>\<open>sink.add(key, length, offset)\<close> some number of times and may then throw an exception of
  its own: \<open>indexer line\<close> is the list of the calls in order and the exception, if any.
\<close>

type_synonym line_indexer = "string \<Rightarrow> (string \<times> nat) list \<times> error option"

text \<open>
  \<^verbatim>\<open>IndexHandler\<close> with its two subclasses: \<open>numeric\<close> tells \<^verbatim>\<open>NumericHandler\<close> from
  \<^verbatim>\<open>AlphaHandler\<close>, \<open>unique_key\<close> is the \<^verbatim>\<open>PRIMARY KEY\<close> of the table that \<^verbatim>\<open>addIndexer\<close>
  creates (lines 541 to 549), \<open>rows\<close> is the table the prepared \<^verbatim>\<open>insert\<close> statement writes.
  \<open>indexed\<close> is the list of the lines that \<^verbatim>\<open>onLine\<close> has handed to the indexer: the messages
  "Indexing line ..." of \<^verbatim>\<open>log.debug\<close>.
\<close>

record index_handler =
  numeric :: bool
  unique_key :: bool
  indexer :: line_indexer
  currentLine :: nat
  rows :: "index_row list"
  indexed :: "string list"

text \<open>
  \<^verbatim>\<open>insert.reset().bind...().step()\<close>: the row is appended; a table whose key is a primary
  key refuses a key it already holds.
\<close>

definition insert_step :: "index_handler \<Rightarrow> index_row \<Rightarrow> error + index_handler" where
  "insert_step h r =
     (if unique_key h \<and> fst r \<in> fst ` set (rows h)
      then Inl (SqliteError ''UNIQUE constraint failed'')
      else Inr (h\<lparr>rows := rows h @ [r]\<rparr>))"

text \<open>
  The value of a \<^verbatim>\<open>char\<close> in a comparison or a subtraction (a signed char, as on the
  platforms zindex builds on; a byte above 127 is negative).
\<close>

definition char_val :: "char \<Rightarrow> int" where
  "char_val c = (if of_char c < (128::nat) then int (of_char c) else int (of_char c) - 256)"

text \<open>
  The loop of \<^verbatim>\<open>NumericHandler::add\<close> (lines 156 to 165): \<^verbatim>\<open>val *= 10\<close>, the digit test,
  \<^verbatim>\<open>val += *index - '0'\<close>. \<open>initKey\<close> is \<^verbatim>\<open>std::string(initIndex, initLen)\<close>.
\<close>

fun add_digits :: "string \<Rightarrow> 64 word \<Rightarrow> string \<Rightarrow> error + 64 word" where
  "add_digits initKey val [] = Inr val"
| "add_digits initKey val (c # cs) =
     (let val = val * 10 in
      if char_val c < char_val CHR ''0'' \<or> char_val c > char_val CHR ''9''
      then Inl (InvalidArgument (''Non-numeric: '' @ [CHR 0x27] @ initKey @ [CHR 0x27]))
      else add_digits initKey (val + word_of_int (char_val c - char_val CHR ''0'')) cs)"

text \<open>The parse of \<^verbatim>\<open>NumericHandler::add\<close> up to \<^verbatim>\<open>if (negative) val = -val\<close>.\<close>

definition numeric_key :: "string \<Rightarrow> error + 64 word" where
  "numeric_key k =
     (let negative = (length k > 0 \<and> hd k = CHR ''-'');
          index = (if negative then tl k else k)
      in if length index = 0 then Inl (InvalidArgument ''Non-numeric: empty string'')
         else case add_digits k 0 index of
                Inl e \<Rightarrow> Inl e
              | Inr val \<Rightarrow> Inr (if negative then - val else val))"

definition NumericHandler_add :: "index_handler \<Rightarrow> string \<Rightarrow> nat \<Rightarrow> error + index_handler" where
  "NumericHandler_add h k offset =
     (case numeric_key k of
        Inl e \<Rightarrow> Inl e
      | Inr val \<Rightarrow> insert_step h (IntKey val, currentLine h, offset))"

definition AlphaHandler_add :: "index_handler \<Rightarrow> string \<Rightarrow> nat \<Rightarrow> error + index_handler" where
  "AlphaHandler_add h k offset = insert_step h (TextKey k, currentLine h, offset)"

text \<open>The virtual call \<^verbatim>\<open>IndexSink::add\<close>.\<close>

definition handler_add :: "index_handler \<Rightarrow> string \<Rightarrow> nat \<Rightarrow> error + index_handler" where
  "handler_add h k offset =
     (if numeric h then NumericHandler_add h k offset else AlphaHandler_add h k offset)"

text \<open>\<^verbatim>\<open>indexer->index(*this, stringView)\<close>: the calls of \<^verbatim>\<open>add\<close> in order, the first exception ends them.\<close>

fun add_all :: "index_handler \<Rightarrow> (string \<times> nat) list \<Rightarrow> error + index_handler" where
  "add_all h [] = Inr h"
| "add_all h ((k, offset) # ks) =
     (case handler_add h k offset of
        Inl e \<Rightarrow> Inl e
      | Inr h' \<Rightarrow> add_all h' ks)"

definition run_indexer :: "index_handler \<Rightarrow> string \<Rightarrow> error + index_handler" where
  "run_indexer h line =
     (case indexer h line of (ks, thrown) \<Rightarrow>
        (case add_all h ks of
           Inl e \<Rightarrow> Inl e
         | Inr h' \<Rightarrow> (case thrown of None \<Rightarrow> Inr h' | Some e \<Rightarrow> Inl e)))"

text \<open>\<^verbatim>\<open>IndexHandler::onLine\<close> (lines 101 to 113): every exception is wrapped.\<close>

definition failed_to_index :: "nat \<Rightarrow> string \<Rightarrow> string \<Rightarrow> string" where
  "failed_to_index n line cause =
     ''Failed to index line '' @ to_string n @ '': '' @ [CHR 0x27] @ line @ [CHR 0x27]
       @ '' - '' @ cause"

definition IndexHandler_onLine :: "index_handler \<Rightarrow> nat \<Rightarrow> string \<Rightarrow> error + index_handler" where
  "IndexHandler_onLine h lineNumber line =
     (let h = h\<lparr>currentLine := lineNumber, indexed := indexed h @ [line]\<rparr> in
      case run_indexer h line of
        Inl e \<Rightarrow> Inl (RuntimeError (failed_to_index (currentLine h) line (what e)))
      | Inr h' \<Rightarrow> Inr h')"

text \<open>A well-formed numeric key: an optional \<open>-\<close>, then decimal digits.\<close>

definition is_digit :: "char \<Rightarrow> bool" where
  "is_digit c = (48 \<le> (of_char c :: nat) \<and> (of_char c :: nat) \<le> 57)"

definition key_digits :: "string \<Rightarrow> string" where
  "key_digits k = (if k \<noteq> [] \<and> hd k = CHR ''-'' then tl k else k)"

definition valid_numeric_key :: "string \<Rightarrow> bool" where
  "valid_numeric_key k = (key_digits k \<noteq> [] \<and> list_all is_digit (key_digits k))"

text \<open>The number a string of decimal digits denotes, and the integer a key denotes.\<close>

definition decimal :: "string \<Rightarrow> nat" where
  "decimal ds = foldl (\<lambda>a c. a * 10 + (of_char c - 48)) 0 ds"

definition key_int :: "string \<Rightarrow> int" where
  "key_int k =
     (if k \<noteq> [] \<and> hd k = CHR ''-'' then - int (decimal (tl k)) else int (decimal k))"


section \<open>Opening an index: \<^verbatim>\<open>Index::load\<close> and \<^verbatim>\<open>Index::Impl::init\<close> (lines 186 to 239, 608 to 619)\<close>

text \<open>
  What \<^verbatim>\<open>fstat\<close> tells about the compressed file; \<open>None\<close> is a failing \<^verbatim>\<open>fstat\<close>.
\<close>

record file_stat =
  st_size :: int
  st_mtime :: int

text \<open>
  \<^verbatim>\<open>metadata_\<close> is filled by the constructor from the rows of the table \<^verbatim>\<open>Metadata\<close> with
  \<^verbatim>\<open>emplace\<close>, which keeps the first value of a key.
\<close>

type_synonym metadata = "string \<rightharpoonup> string"

definition emplace :: "metadata \<Rightarrow> string \<times> string \<Rightarrow> metadata" where
  "emplace m kv = (if m (fst kv) = None then m(fst kv \<mapsto> snd kv) else m)"

definition read_metadata :: "(string \<times> string) list \<Rightarrow> metadata" where
  "read_metadata table = foldl emplace Map.empty table"

text \<open>
  \<^verbatim>\<open>Index::Impl::init(force)\<close>. The result is the exception thrown, or the list of the warnings
  that \<^verbatim>\<open>log_.warn\<close> received (debug messages are left out).
\<close>

definition size_warning :: "int \<Rightarrow> string \<Rightarrow> string" where
  "size_warning sz expected =
     ''Expected compressed size mismatched, continuing anyway ('' @ to_string_int sz
       @ '' vs expected '' @ expected @ '')''"

definition check_size :: "metadata \<Rightarrow> file_stat \<Rightarrow> bool \<Rightarrow> error + string list" where
  "check_size metadata stats force =
     (let sizeStr = to_string_int (st_size stats) in
      if metadata ''compressedSize'' \<noteq> None \<and> sizeStr \<noteq> the (metadata ''compressedSize'')
      then (if force
            then Inr [size_warning (st_size stats) (the (metadata ''compressedSize''))]
            else Inl (RuntimeError ''Compressed size changed since index was built''))
      else Inr [])"

definition check_mtime :: "metadata \<Rightarrow> file_stat \<Rightarrow> bool \<Rightarrow> error + string list" where
  "check_mtime metadata stats force =
     (let timeStr = to_string_int (st_mtime stats) in
      if metadata ''compressedModTime'' \<noteq> None \<and> timeStr \<noteq> the (metadata ''compressedModTime'')
      then (if force
            then Inr [''Expected compressed timestamp, continuing anyway'']
            else Inl (RuntimeError ''Compressed file has been modified since index was built''))
      else Inr [])"

definition Impl_init :: "metadata \<Rightarrow> file_stat option \<Rightarrow> bool \<Rightarrow> error + string list" where
  "Impl_init metadata fstat force =
     (case fstat of
        None \<Rightarrow> Inl (RuntimeError ''Unable to get file stats'')
      | Some stats \<Rightarrow>
          (case check_size metadata stats force of
             Inl e \<Rightarrow> Inl e
           | Inr w1 \<Rightarrow>
               (case check_mtime metadata stats force of
                  Inl e \<Rightarrow> Inl e
                | Inr w2 \<Rightarrow> Inr (w1 @ w2))))"

text \<open>
  \<^verbatim>\<open>Index::load\<close>: \<^verbatim>\<open>db.open\<close> may throw. The constructor of \<^verbatim>\<open>Impl\<close> then reads the rows
  of the table \<^verbatim>\<open>Metadata\<close>; an exception while it reads is caught and logged as a warning,
  and the rows read before it stay. So an opened database is the rows that could be read and
  the exception that ended the reading, if any. \<^verbatim>\<open>init\<close> compares the metadata with the
  compressed file. A successful load gives the metadata and the warnings logged.
\<close>

type_synonym metadata_db = "(string \<times> string) list \<times> error option"

definition caught_warning :: "error option \<Rightarrow> string list" where
  "caught_warning failure =
     (case failure of
        None \<Rightarrow> []
      | Some e \<Rightarrow> [''Caught exception reading metadata: '' @ what e])"

definition Index_load ::
  "(error + metadata_db) \<Rightarrow> file_stat option \<Rightarrow> bool \<Rightarrow> error + metadata \<times> string list"
where
  "Index_load db fstat forceLoad =
     (case db of
        Inl e \<Rightarrow> Inl e
      | Inr (table, failure) \<Rightarrow>
          (let metadata = read_metadata table in
           case Impl_init metadata fstat forceLoad of
             Inl e \<Rightarrow> Inl e
           | Inr warnings \<Rightarrow> Inr (metadata, caught_warning failure @ warnings)))"

section \<open>zlib and the compressed file\<close>

text \<open>
  zlib is not part of the repository: its functions are parameters of the model. The type
  \<open>'z\<close> is the internal state of a \<^verbatim>\<open>z_stream\<close>. One call of \<^verbatim>\<open>inflate\<close> sees the state, the
  \<^verbatim>\<open>avail_in\<close> bytes at \<^verbatim>\<open>next_in\<close>, \<^verbatim>\<open>avail_out\<close> and the flush mode; it answers with its
  return code, the number of input bytes it consumed, the bytes it wrote at \<^verbatim>\<open>next_out\<close>, the
  new \<^verbatim>\<open>data_type\<close> and the new state.
\<close>

record 'z inflate_result =
  ret_code :: int
  consumed :: nat
  produced :: "byte list"
  new_data_type :: nat
  new_state :: 'z

text \<open>
  The fields of \<^verbatim>\<open>z_stream\<close> that the source reads or writes. \<^verbatim>\<open>avail_in\<close> is the length of
  \<open>next_in\<close>. Where \<^verbatim>\<open>next_out\<close> points is known from the variables of the caller.
\<close>

record 'z z_stream =
  state :: 'z
  next_in :: "byte list"
  avail_out :: nat
  data_type :: nat

definition avail_in :: "('z, 'a) z_stream_scheme \<Rightarrow> nat" where
  "avail_in s = length (next_in s)"

record 'z zlib =
  inflateInit2 :: "int \<Rightarrow> int \<times> 'z"
  inflatePrime :: "'z \<Rightarrow> int \<Rightarrow> int \<Rightarrow> int \<times> 'z"
  inflateSetDictionary :: "'z \<Rightarrow> byte list \<Rightarrow> int \<times> 'z"
  inflate :: "'z \<Rightarrow> byte list \<Rightarrow> nat \<Rightarrow> int \<Rightarrow> 'z inflate_result"
  compress2 :: "byte list \<Rightarrow> nat \<Rightarrow> int \<Rightarrow> int \<times> byte list"
  uncompress :: "byte list \<Rightarrow> nat \<Rightarrow> int \<times> byte list"
  compressBound :: "nat \<Rightarrow> nat"

definition Z_NO_FLUSH :: int where "Z_NO_FLUSH = 0"
definition Z_BLOCK :: int where "Z_BLOCK = 5"

text \<open>\<^verbatim>\<open>ZStream::Type\<close> (lines 73 to 75).\<close>

definition ZlibOrGzip :: int where "ZlibOrGzip = 47"
definition Raw :: int where "Raw = - 15"

text \<open>\<^verbatim>\<open>X\<close> (lines 46 to 48).\<close>

definition X :: "int \<Rightarrow> error + unit" where
  "X zlibErr = (if zlibErr \<noteq> Z_OK then Inl (ZlibError zlibErr) else Inr ())"

text \<open>
  A \<^verbatim>\<open>File\<close>: its bytes, the read position, and whether the device fails (then \<^verbatim>\<open>fseek\<close>
  fails, and \<^verbatim>\<open>fread\<close> and \<^verbatim>\<open>fgetc\<close> read nothing and set the error indicator).
\<close>

record File =
  bytes :: "byte list"
  pos :: nat
  failing :: bool

definition ferror :: "File \<Rightarrow> bool" where
  "ferror f = failing f"

definition fread :: "File \<Rightarrow> nat \<Rightarrow> byte list \<times> File" where
  "fread f n =
     (if failing f then ([], f)
      else (take n (drop (pos f) (bytes f)), f\<lparr>pos := min (length (bytes f)) (pos f + n)\<rparr>))"

definition fgetc :: "File \<Rightarrow> int \<times> File" where
  "fgetc f =
     (if failing f \<or> pos f \<ge> length (bytes f) then (- 1, f)
      else (uint (bytes f ! pos f), f\<lparr>pos := pos f + 1\<rparr>))"

text \<open>\<^verbatim>\<open>seek\<close> (lines 34 to 38); \<^verbatim>\<open>fseek\<close> refuses a negative position.\<close>

definition seek :: "File \<Rightarrow> int \<Rightarrow> error + File" where
  "seek f p =
     (if failing f \<or> p < 0 then Inl (RuntimeError ''Error seeking in file'')
      else Inr (f\<lparr>pos := nat p\<rparr>))"

text \<open>The conversion of a 64-bit value to \<^verbatim>\<open>uInt\<close>, the type of \<^verbatim>\<open>avail_out\<close>.\<close>

definition uInt :: "int \<Rightarrow> nat" where
  "uInt i = nat (i mod 2 ^ 32)"

section \<open>The tables of the index\<close>

text \<open>
  A row of \<^verbatim>\<open>AccessPoints\<close> is written by the statement \<^verbatim>\<open>addIndex\<close> of \<^verbatim>\<open>build\<close>, whose
  parameters are bound one by one: a parameter that was never bound is \<^verbatim>\<open>NULL\<close>, here
  \<open>None\<close>. The same record is the state of the statement (what is bound) and the row it
  inserts. A row of \<^verbatim>\<open>LineOffsets\<close> is always bound in full.
\<close>

record access_point =
  uncompressedOffset :: "int option"
  uncompressedEndOffset :: "int option"
  compressedOffset :: "int option"
  bitOffset :: "int option"
  window_blob :: "byte list option"

record line_offset =
  lo_line :: int
  lo_offset :: int
  lo_length :: int

record index_db =
  AccessPoints :: "access_point list"
  LineOffsets :: "line_offset list"

section \<open>Reading a line: \<^verbatim>\<open>getLine\<close> and \<^verbatim>\<open>print\<close> (lines 189 to 194, 241 to 246, 267 to 327)\<close>

text \<open>
  \<^verbatim>\<open>lineQuery_\<close>: the join of \<^verbatim>\<open>LineOffsets\<close> and \<^verbatim>\<open>AccessPoints\<close>, filtered, \<^verbatim>\<open>LIMIT 1\<close>. A
  comparison with \<^verbatim>\<open>NULL\<close> is not true. The order of the join is the order of the tables.
\<close>

definition covers :: "access_point \<Rightarrow> line_offset \<Rightarrow> bool" where
  "covers ap lo =
     (case (uncompressedOffset ap, uncompressedEndOffset ap) of
        (Some u, Some e) \<Rightarrow> lo_offset lo \<ge> u \<and> lo_offset lo \<le> e
      | _ \<Rightarrow> False)"

definition lineQuery :: "index_db \<Rightarrow> int \<Rightarrow> (line_offset \<times> access_point) option" where
  "lineQuery db n =
     (case filter (\<lambda>(lo, ap). covers ap lo \<and> lo_line lo = n)
             (List.product (LineOffsets db) (AccessPoints db)) of
        [] \<Rightarrow> None
      | r # _ \<Rightarrow> Some r)"

text \<open>\<^verbatim>\<open>columnInt64\<close> and \<^verbatim>\<open>columnBlob\<close> on a column that may be \<^verbatim>\<open>NULL\<close>.\<close>

definition columnInt64 :: "int option \<Rightarrow> int" where
  "columnInt64 c = (case c of None \<Rightarrow> 0 | Some v \<Rightarrow> v)"

definition columnBlob :: "byte list option \<Rightarrow> byte list" where
  "columnBlob c = (case c of None \<Rightarrow> [] | Some v \<Rightarrow> v)"

text \<open>
  \<^verbatim>\<open>bindInt64(":line", line)\<close> converts the \<^verbatim>\<open>uint64_t\<close> line number to \<^verbatim>\<open>int64_t\<close>.
\<close>

definition to_int64 :: "nat \<Rightarrow> int" where
  "to_int64 n = sint (word_of_nat n :: 64 word)"

text \<open>\<^verbatim>\<open>uncompress\<close> (lines 63 to 69): the window must decompress to exactly \<open>len\<close> bytes.\<close>

definition uncompress_window :: "'z zlib \<Rightarrow> byte list \<Rightarrow> nat \<Rightarrow> error + byte list" where
  "uncompress_window zl compressed len =
     (case uncompress zl compressed len of (r, to) \<Rightarrow>
        (case X r of
           Inl e \<Rightarrow> Inl e
         | Inr _ \<Rightarrow>
             if length to \<noteq> len then Inl (RuntimeError ''Unable to decompress a full window'')
             else Inr to))"

text \<open>
  What a \<^verbatim>\<open>LineSink\<close> receives in one call of \<^verbatim>\<open>onLine\<close>: line number, offset, the bytes at
  the pointer and the length. For \<^verbatim>\<open>print\<close> the bytes are those that \<^verbatim>\<open>inflate\<close> wrote to
  \<^verbatim>\<open>lineBuf\<close> (the rest of the buffer is not initialised).
\<close>

type_synonym sink_call = "int \<times> int \<times> byte list \<times> int"

text \<open>
  The variables of \<^verbatim>\<open>print\<close> that its loops change: the stream \<^verbatim>\<open>zs.stream\<close> and, added
  to it, the file and the locals.
\<close>

record 'z print_vars = "'z z_stream" +
  compressed :: File
  numToSkip :: int
  skipping :: bool
  lineBuf :: "byte list"

text \<open>Lines 311 to 317: an empty input buffer is refilled from the file.\<close>

definition fill_input :: "'z print_vars \<Rightarrow> error + 'z print_vars" where
  "fill_input s =
     (if avail_in s = 0
      then (case fread (compressed s) ChunkSize of (chunk, f) \<Rightarrow>
              if ferror f then Inl (ZlibError Z_ERRNO)
              else if length chunk = 0 then Inl (ZlibError Z_DATA_ERROR)
              else Inr (s\<lparr>next_in := chunk, compressed := f\<rparr>))
      else Inr s)"

text \<open>
  The call of \<^verbatim>\<open>inflate\<close> at line 318. zlib writes at most \<^verbatim>\<open>avail_out\<close> bytes and reads at
  most \<^verbatim>\<open>avail_in\<close>: the answer of the parameter is cut to that. While \<open>skipping\<close> holds,
  \<^verbatim>\<open>next_out\<close> is in \<^verbatim>\<open>discardBuffer\<close>; afterwards it is in \<^verbatim>\<open>lineBuf\<close>.
\<close>

definition print_inflate :: "'z zlib \<Rightarrow> 'z print_vars \<Rightarrow> int \<times> 'z print_vars" where
  "print_inflate zl s =
     (let r = inflate zl (state s) (next_in s) (avail_out s) Z_NO_FLUSH;
          written = take (avail_out s) (produced r)
      in (ret_code r,
          s\<lparr>state := new_state r,
            next_in := drop (consumed r) (next_in s),
            avail_out := avail_out s - length written,
            data_type := new_data_type r,
            lineBuf := (if skipping s then lineBuf s else lineBuf s @ written)\<rparr>))"

text \<open>
  The inner loop (lines 310 to 323). The first argument after \<open>zl\<close> bounds the number of
  iterations; \<open>None\<close> means the bound was too small.
\<close>

fun inflate_loop :: "'z zlib \<Rightarrow> nat \<Rightarrow> 'z print_vars \<Rightarrow> (error + 'z print_vars) option" where
  "inflate_loop zl 0 s = None"
| "inflate_loop zl (Suc n) s =
     (case fill_input s of
        Inl e \<Rightarrow> Some (Inl e)
      | Inr s1 \<Rightarrow>
          (case print_inflate zl s1 of (r, s2) \<Rightarrow>
             if r = Z_NEED_DICT then Some (Inl (ZlibError Z_DATA_ERROR))
             else if r = Z_MEM_ERROR \<or> r = Z_DATA_ERROR then Some (Inl (ZlibError r))
             else if r = Z_STREAM_END then Some (Inr s2)
             else if avail_out s2 \<noteq> 0 then inflate_loop zl n s2
             else Some (Inr s2)))"

text \<open>Lines 296 to 309: where the next output goes and how much of it.\<close>

definition next_target :: "int \<Rightarrow> 'z print_vars \<Rightarrow> 'z print_vars" where
  "next_target len s =
     (let s1 = (if numToSkip s = 0 \<and> skipping s
                then s\<lparr>avail_out := uInt len, skipping := False\<rparr> else s)
      in if numToSkip s1 > int WindowSize
         then s1\<lparr>avail_out := WindowSize, numToSkip := numToSkip s1 - int WindowSize\<rparr>
         else if numToSkip s1 \<noteq> 0
         then s1\<lparr>avail_out := uInt (numToSkip s1), numToSkip := 0\<rparr>
         else s1)"

text \<open>The outer loop (lines 295 to 324).\<close>

fun skip_loop :: "'z zlib \<Rightarrow> int \<Rightarrow> nat \<Rightarrow> 'z print_vars \<Rightarrow> (error + 'z print_vars) option" where
  "skip_loop zl len 0 s = None"
| "skip_loop zl len (Suc n) s =
     (case inflate_loop zl (Suc n) (next_target len s) of
        None \<Rightarrow> None
      | Some (Inl e) \<Rightarrow> Some (Inl e)
      | Some (Inr s') \<Rightarrow> if skipping s' then skip_loop zl len n s' else Some (Inr s'))"

text \<open>
  Lines 277 to 289: the raw stream is created, the file is positioned, the bits of the byte
  before \<^verbatim>\<open>compressedOffset\<close> are primed, the window is set as dictionary.
\<close>

definition prime :: "'z zlib \<Rightarrow> 'z \<Rightarrow> File \<Rightarrow> int \<Rightarrow> error + 'z \<times> File" where
  "prime zl z f bitOffs =
     (if bitOffs \<noteq> 0
      then (case fgetc f of (c, f') \<Rightarrow>
              if c = - 1 then Inl (ZlibError (if ferror f' then Z_ERRNO else Z_DATA_ERROR))
              else (case inflatePrime zl z bitOffs (c div 2 ^ nat (8 - bitOffs)) of (r, z') \<Rightarrow>
                      (case X r of Inl e \<Rightarrow> Inl e | Inr _ \<Rightarrow> Inr (z', f'))))
      else Inr (z, f))"

definition resume :: "'z zlib \<Rightarrow> File \<Rightarrow> int \<Rightarrow> int \<Rightarrow> byte list \<Rightarrow> error + 'z \<times> File" where
  "resume zl f compressedOffs bitOffs win =
     (case inflateInit2 zl Raw of (r0, z0) \<Rightarrow>
      case X r0 of Inl e \<Rightarrow> Inl e | Inr _ \<Rightarrow>
      case seek f (if bitOffs \<noteq> 0 then compressedOffs - 1 else compressedOffs) of
        Inl e \<Rightarrow> Inl e
      | Inr f1 \<Rightarrow>
      case prime zl z0 f1 bitOffs of
        Inl e \<Rightarrow> Inl e
      | Inr (z1, f2) \<Rightarrow>
      case inflateSetDictionary zl z1 win of (r2, z2) \<Rightarrow>
      case X r2 of Inl e \<Rightarrow> Inl e | Inr _ \<Rightarrow> Inr (z2, f2))"

text \<open>
  \<^verbatim>\<open>Index::Impl::print\<close>. The result is the exception, or the call that the sink receives.
\<close>

definition print ::
  "'z zlib \<Rightarrow> nat \<Rightarrow> File \<Rightarrow> line_offset \<times> access_point \<Rightarrow> (error + sink_call) option"
where
  "print zl fuel f q =
     (case q of (lo, ap) \<Rightarrow>
      let compressedOffs = columnInt64 (compressedOffset ap);
          uncompressedOffs = columnInt64 (uncompressedOffset ap);
          bitOffs = columnInt64 (bitOffset ap)
      in case uncompress_window zl (columnBlob (window_blob ap)) WindowSize of
           Inl e \<Rightarrow> Some (Inl e)
         | Inr win \<Rightarrow>
         case resume zl f compressedOffs bitOffs win of
           Inl e \<Rightarrow> Some (Inl e)
         | Inr (z, f') \<Rightarrow>
         case skip_loop zl (lo_length lo) fuel
                \<lparr>state = z, next_in = [], avail_out = 0, data_type = 0, compressed = f',
                 numToSkip = lo_offset lo - uncompressedOffs, skipping = True, lineBuf = []\<rparr> of
           None \<Rightarrow> None
         | Some (Inl e) \<Rightarrow> Some (Inl e)
         | Some (Inr s) \<Rightarrow> Some (Inr (lo_line lo, lo_offset lo, lineBuf s, lo_length lo - 1)))"

text \<open>
  \<^verbatim>\<open>Index::Impl::getLine\<close>: the calls the sink has received are a list, a new call is added
  at its end.
\<close>

definition getLine ::
  "'z zlib \<Rightarrow> nat \<Rightarrow> index_db \<Rightarrow> File \<Rightarrow> nat \<Rightarrow> sink_call list \<Rightarrow> (error + sink_call list) option"
where
  "getLine zl fuel db f n sink =
     (case lineQuery db (to_int64 n) of
        None \<Rightarrow> Some (Inr sink)
      | Some q \<Rightarrow>
          (case print zl fuel f q of
             None \<Rightarrow> None
           | Some (Inl e) \<Rightarrow> Some (Inl e)
           | Some (Inr c) \<Rightarrow> Some (Inr (sink @ [c]))))"

declare inflate_loop.simps [simp del] skip_loop.simps [simp del]

definition buf_inv :: "int \<Rightarrow> ('z, 'a) print_vars_scheme \<Rightarrow> bool" where
  "buf_inv len s =
     (if skipping s then lineBuf s = [] else length (lineBuf s) + avail_out s = uInt len)"

section \<open>Lines and key extractors during a build (lines 571 to 579)\<close>

text \<open>\<^verbatim>\<open>reinterpret_cast<const char *>\<close>: bytes read as characters.\<close>

definition chars_of :: "byte list \<Rightarrow> string" where
  "chars_of bs = map (\<lambda>b. char_of (unat b)) bs"

text \<open>
  \<^verbatim>\<open>indexers\<close> is an unordered map from the name of an index to its handler; the list gives
  the order in which the loop of \<^verbatim>\<open>onLine\<close> visits it.
\<close>

type_synonym handlers = "(string \<times> index_handler) list"

fun each_onLine :: "handlers \<Rightarrow> nat \<Rightarrow> string \<Rightarrow> error + handlers" where
  "each_onLine [] lineNumber text = Inr []"
| "each_onLine ((name, h) # hs) lineNumber text =
     (case IndexHandler_onLine h lineNumber text of
        Inl e \<Rightarrow> Inl e
      | Inr h' \<Rightarrow>
          (case each_onLine hs lineNumber text of
             Inl e \<Rightarrow> Inl e
           | Inr hs' \<Rightarrow> Inr ((name, h') # hs')))"

text \<open>\<^verbatim>\<open>Index::Builder::Impl::onLine\<close>.\<close>

definition Builder_onLine :: "nat \<Rightarrow> handlers \<Rightarrow> nat \<Rightarrow> nat \<Rightarrow> string \<Rightarrow> error + handlers" where
  "Builder_onLine skipFirst hs lineNumber fileOffset text =
     (if lineNumber \<le> skipFirst then Inr hs else each_onLine hs lineNumber text)"

section \<open>\<^verbatim>\<open>LineFinder\<close>\<close>

text \<open>
  Modelled from the spec: the class \<^verbatim>\<open>LineFinder\<close> (\<^verbatim>\<open>LineFinder.h\<close> and its implementation are
  not among the sources). Section 4.3 of the specification: it consumes the decompressed
  bytes in chunks and keeps a cursor of the bytes consumed; each byte \<open>0x0A\<close> ends a line; the
  table of line offsets records the offset of the first byte of each line; the length of
  line \<open>N\<close> is \<open>offset[N+1] - offset[N]\<close>, the terminator included; the sink is called with the
  line number (from 1), the offset, the bytes and the length without the terminator, and the
  stored length is one greater; a last line without terminator extends to the end of the
  output. \<^verbatim>\<open>build\<close> takes the length of line \<open>N\<close> as \<open>lineOffsets[N] - lineOffsets[N - 1]\<close>, so
  after the last chunk the table ends with one more offset. Here that offset is where a next
  line would begin: the end of the output when a \<open>0x0A\<close> ends the last line, and one more
  when nothing ends it, so that the stored length is one greater than the line for every
  line. \<^verbatim>\<open>print\<close> is written for such rows: it asks \<^verbatim>\<open>inflate\<close> for \<^verbatim>\<open>length\<close> bytes, leaves its
  loop at \<^verbatim>\<open>Z_STREAM_END\<close> (line 322) when the output ends before, and reports \<^verbatim>\<open>length - 1\<close>.
\<close>

record line_finder =
  lineOffsets :: "nat list"
  lineData :: "byte list"
  cursor :: nat

definition new_finder :: line_finder where
  "new_finder = \<lparr>lineOffsets = [], lineData = [], cursor = 0\<rparr>"

text \<open>A line is complete: its offset is recorded and the sink (the builder) is called.\<close>

definition finder_line :: "nat \<Rightarrow> line_finder \<Rightarrow> handlers \<Rightarrow> error + line_finder \<times> handlers" where
  "finder_line skipFirst fd hs =
     (let start = cursor fd - length (lineData fd) in
      case Builder_onLine skipFirst hs (length (lineOffsets fd) + 1) start (chars_of (lineData fd)) of
        Inl e \<Rightarrow> Inl e
      | Inr hs' \<Rightarrow> Inr (fd\<lparr>lineOffsets := lineOffsets fd @ [start], lineData := []\<rparr>, hs'))"

fun finder_bytes ::
  "nat \<Rightarrow> line_finder \<Rightarrow> handlers \<Rightarrow> byte list \<Rightarrow> error + line_finder \<times> handlers"
where
  "finder_bytes skipFirst fd hs [] = Inr (fd, hs)"
| "finder_bytes skipFirst fd hs (b # bs) =
     (if b = 0x0A
      then (case finder_line skipFirst fd hs of
              Inl e \<Rightarrow> Inl e
            | Inr (fd', hs') \<Rightarrow> finder_bytes skipFirst (fd'\<lparr>cursor := cursor fd' + 1\<rparr>) hs' bs)
      else finder_bytes skipFirst (fd\<lparr>lineData := lineData fd @ [b], cursor := cursor fd + 1\<rparr>) hs bs)"

text \<open>\<^verbatim>\<open>finder.add(data, length, last)\<close>.\<close>

definition finder_add ::
  "nat \<Rightarrow> line_finder \<Rightarrow> handlers \<Rightarrow> byte list \<Rightarrow> bool \<Rightarrow> error + line_finder \<times> handlers"
where
  "finder_add skipFirst fd hs chunk final =
     (case finder_bytes skipFirst fd hs chunk of
        Inl e \<Rightarrow> Inl e
      | Inr (fd1, hs1) \<Rightarrow>
          if \<not> final then Inr (fd1, hs1)
          else if lineData fd1 \<noteq> []
          then (case finder_line skipFirst fd1 hs1 of
                  Inl e \<Rightarrow> Inl e
                | Inr (fd2, hs2) \<Rightarrow>
                    Inr (fd2\<lparr>lineOffsets := lineOffsets fd2 @ [cursor fd2 + 1]\<rparr>, hs2))
          else Inr (fd1\<lparr>lineOffsets := lineOffsets fd1 @ [cursor fd1]\<rparr>, hs1))"

section \<open>Building an index: \<^verbatim>\<open>makeWindow\<close> and \<^verbatim>\<open>build\<close> (lines 50 to 61, 408 to 527)\<close>

text \<open>
  The two \<^verbatim>\<open>memcpy\<close> of \<^verbatim>\<open>makeWindow\<close>: the last \<open>left\<close> bytes of the window, then its first
  \<open>WindowSize - left\<close> bytes.
\<close>

definition window_snapshot :: "byte list \<Rightarrow> nat \<Rightarrow> byte list" where
  "window_snapshot w left =
     (if left \<noteq> 0 then take left (drop (WindowSize - left) w) else [])
     @ (if left < WindowSize then take (WindowSize - left) w else [])"

definition makeWindow :: "'z zlib \<Rightarrow> nat \<Rightarrow> byte list \<Rightarrow> nat \<Rightarrow> error + byte list" where
  "makeWindow zl outSize w left =
     (case compress2 zl (window_snapshot w left) outSize 9 of (r, out) \<Rightarrow>
        (case X r of Inl e \<Rightarrow> Inl e | Inr _ \<Rightarrow> Inr out))"

text \<open>
  The variables of \<^verbatim>\<open>build\<close>: the stream \<^verbatim>\<open>zs.stream\<close> and, added to it, the members of the
  builder and the locals. \<open>from_file\<close> is \<^verbatim>\<open>from\<close>, \<open>last'\<close> is \<^verbatim>\<open>last\<close>. \<open>addIndex\<close> is what is
  bound to the statement \<^verbatim>\<open>addIndex\<close>, \<open>AccessPoints\<close> of \<open>tables\<close> the rows it has inserted.
  \<open>logged\<close> is the list of the messages "Creating checkpoint at ..." of \<^verbatim>\<open>log.debug\<close>, each
  with its two numbers \<^verbatim>\<open>totalOut\<close> and \<^verbatim>\<open>totalIn\<close>. \<open>uncompressed\<close> is not a variable of the
  source: it is the history of all bytes that \<^verbatim>\<open>inflate\<close> has written, kept to state
  properties, and nothing reads it.
\<close>

record 'z build_vars = "'z z_stream" +
  skipFirst :: nat
  indexEvery :: nat
  indexers :: handlers
  from_file :: File
  window :: "byte list"
  ret :: int
  totalIn :: nat
  totalOut :: nat
  last' :: nat
  first :: bool
  finder :: line_finder
  addIndex :: access_point
  tables :: index_db
  logged :: "(nat \<times> nat) list"
  uncompressed :: "byte list"

text \<open>Lines 445 to 452: a full window is handed to the line finder and reused.\<close>

definition rewind_window :: "'z build_vars \<Rightarrow> error + 'z build_vars" where
  "rewind_window s =
     (if avail_out s = 0
      then (let s1 = s\<lparr>avail_out := WindowSize\<rparr> in
            if \<not> first s1
            then (case finder_add (skipFirst s1) (finder s1) (indexers s1) (take WindowSize (window s1)) False of
                    Inl e \<Rightarrow> Inl e
                  | Inr (fd, hs) \<Rightarrow> Inr (s1\<lparr>finder := fd, indexers := hs, first := False\<rparr>))
            else Inr (s1\<lparr>first := False\<rparr>))
      else Inr s)"

text \<open>
  Lines 453 to 457: the call of \<^verbatim>\<open>inflate\<close> with \<^verbatim>\<open>Z_BLOCK\<close> and the two counters. zlib
  writes at most \<^verbatim>\<open>avail_out\<close> bytes and reads at most \<^verbatim>\<open>avail_in\<close>. \<^verbatim>\<open>next_out\<close> is
  \<open>WindowSize - avail_out\<close> bytes into the window.
\<close>

definition build_inflate :: "'z zlib \<Rightarrow> 'z build_vars \<Rightarrow> 'z build_vars" where
  "build_inflate zl s =
     (let r = inflate zl (state s) (next_in s) (avail_out s) Z_BLOCK;
          written = take (avail_out s) (produced r);
          at = WindowSize - avail_out s;
          s1 = s\<lparr>totalIn := totalIn s + avail_in s, totalOut := totalOut s + avail_out s\<rparr>;
          s2 = s1\<lparr>state := new_state r,
                 next_in := drop (consumed r) (next_in s1),
                 avail_out := avail_out s1 - length written,
                 data_type := new_data_type r,
                 window := take at (window s1) @ written @ drop (at + length written) (window s1),
                 ret := ret_code r,
                 uncompressed := uncompressed s1 @ written\<rparr>
      in s2\<lparr>totalIn := totalIn s2 - avail_in s2, totalOut := totalOut s2 - avail_out s2\<rparr>)"

text \<open>Lines 464 to 467.\<close>

definition needsIndex :: "'z build_vars \<Rightarrow> bool" where
  "needsIndex s = (totalOut s - last' s > indexEvery s \<or> totalOut s = 0)"

definition endOfBlock :: "'z build_vars \<Rightarrow> bool" where
  "endOfBlock s = (data_type s AND 0x80 \<noteq> 0)"

definition lastBlockInStream :: "'z build_vars \<Rightarrow> bool" where
  "lastBlockInStream s = (data_type s AND 0x40 \<noteq> 0)"

text \<open>\<^verbatim>\<open>addIndex.bindInt64(":uncompressedEndOffset", totalOut - 1).step()\<close>: the row is inserted.\<close>

definition flush_row :: "'z build_vars \<Rightarrow> 'z build_vars" where
  "flush_row s =
     (let bound = (addIndex s)\<lparr>uncompressedEndOffset := Some (int (totalOut s) - 1)\<rparr> in
      s\<lparr>addIndex := bound,
        tables := (tables s)\<lparr>AccessPoints := AccessPoints (tables s) @ [bound]\<rparr>\<rparr>)"

text \<open>Lines 468 to 489: the checkpoint.\<close>

definition checkpoint :: "'z zlib \<Rightarrow> 'z build_vars \<Rightarrow> error + 'z build_vars" where
  "checkpoint zl s =
     (if endOfBlock s \<and> \<not> lastBlockInStream s \<and> needsIndex s
      then (let s1 = s\<lparr>logged := logged s @ [(totalOut s, totalIn s)]\<rparr>;
                s2 = (if totalOut s1 \<noteq> 0 then flush_row s1 else s1)
            in case makeWindow zl (compressBound zl WindowSize) (window s2) (avail_out s2) of
                 Inl e \<Rightarrow> Inl e
               | Inr apWindow \<Rightarrow>
                   Inr (s2\<lparr>addIndex := (addIndex s2)
                             \<lparr>uncompressedOffset := Some (int (totalOut s2)),
                              compressedOffset := Some (int (totalIn s2)),
                              bitOffset := Some (int (data_type s2 AND 0x7)),
                              window_blob := Some apWindow\<rparr>,
                           last' := totalOut s2\<rparr>))
      else Inr s)"

text \<open>
  One turn of the inner loop (lines 445 to 499) without its test; the messages about the
  progress are left out. After \<^verbatim>\<open>Z_STREAM_END\<close> the turn ends at the \<^verbatim>\<open>break\<close>.
\<close>

definition inflate_step :: "'z zlib \<Rightarrow> 'z build_vars \<Rightarrow> error + 'z build_vars" where
  "inflate_step zl s =
     (case rewind_window s of
        Inl e \<Rightarrow> Inl e
      | Inr s1 \<Rightarrow>
          (let s2 = build_inflate zl s1 in
           if ret s2 = Z_NEED_DICT then Inl (ZlibError Z_DATA_ERROR)
           else if ret s2 = Z_MEM_ERROR \<or> ret s2 = Z_DATA_ERROR then Inl (ZlibError (ret s2))
           else if ret s2 = Z_STREAM_END then Inr s2
           else checkpoint zl s2))"

text \<open>
  The inner loop (lines 444 to 500) and the outer loop (lines 437 to 501). The number bounds
  the turns; \<open>None\<close> means that it was too small.
\<close>

fun inflate_steps :: "'z zlib \<Rightarrow> nat \<Rightarrow> 'z build_vars \<Rightarrow> (error + 'z build_vars) option" where
  "inflate_steps zl 0 s = None"
| "inflate_steps zl (Suc n) s =
     (case inflate_step zl s of
        Inl e \<Rightarrow> Some (Inl e)
      | Inr s' \<Rightarrow>
          if ret s' = Z_STREAM_END then Some (Inr s')
          else if avail_in s' \<noteq> 0 then inflate_steps zl n s'
          else Some (Inr s'))"

definition read_chunk :: "'z build_vars \<Rightarrow> error + 'z build_vars" where
  "read_chunk s =
     (case fread (from_file s) ChunkSize of (chunk, f) \<Rightarrow>
        if ferror f then Inl (ZlibError Z_ERRNO)
        else if length chunk = 0 then Inl (ZlibError Z_DATA_ERROR)
        else Inr (s\<lparr>next_in := chunk, from_file := f\<rparr>))"

fun read_chunks :: "'z zlib \<Rightarrow> nat \<Rightarrow> 'z build_vars \<Rightarrow> (error + 'z build_vars) option" where
  "read_chunks zl 0 s = None"
| "read_chunks zl (Suc n) s =
     (case read_chunk s of
        Inl e \<Rightarrow> Some (Inl e)
      | Inr s1 \<Rightarrow>
          (case inflate_steps zl (Suc n) s1 of
             None \<Rightarrow> None
           | Some (Inl e) \<Rightarrow> Some (Inl e)
           | Some (Inr s2) \<Rightarrow>
               if ret s2 \<noteq> Z_STREAM_END then read_chunks zl n s2 else Some (Inr s2)))"

declare inflate_steps.simps [simp del] read_chunks.simps [simp del]

text \<open>
  Lines 513 to 522: a row of \<^verbatim>\<open>LineOffsets\<close> for every entry of \<^verbatim>\<open>lineOffsets\<close> but the last.
  The bound \<^verbatim>\<open>lineOffsets.size() - 1\<close> of the loop is unsigned: on an empty vector the loop
  would read beyond it, which is the error here.
\<close>

fun line_rows :: "nat \<Rightarrow> nat list \<Rightarrow> line_offset list" where
  "line_rows n (a # b # rest) =
     \<lparr>lo_line = int (n + 1), lo_offset = int a, lo_length = int (b - a)\<rparr> # line_rows (n + 1) (b # rest)"
| "line_rows n rest = []"

definition addLine_rows :: "nat list \<Rightarrow> error + line_offset list" where
  "addLine_rows offsets =
     (if offsets = [] then Inl (RuntimeError ''lineOffsets is empty'')
      else Inr (line_rows 0 offsets))"

text \<open>
  \<^verbatim>\<open>Index::Builder::Impl::build\<close>. The builder comes from the constructor, \<^verbatim>\<open>init\<close>,
  \<^verbatim>\<open>addIndexer\<close> and \<^verbatim>\<open>indexEvery\<close>: \<open>skip\<close>, \<open>every\<close> and \<open>hs\<close> are \<^verbatim>\<open>skipFirst\<close>, \<^verbatim>\<open>indexEvery\<close>
  and \<^verbatim>\<open>indexers\<close>, the tables are empty. \<open>stack\<close> is what the array \<^verbatim>\<open>window\<close> holds when
  \<^verbatim>\<open>build\<close> is entered: the source does not initialise it.
\<close>

definition start_build ::
  "'z \<Rightarrow> nat \<Rightarrow> nat \<Rightarrow> handlers \<Rightarrow> File \<Rightarrow> byte list \<Rightarrow> 'z build_vars"
where
  "start_build z skip every hs f stack =
     \<lparr>state = z, next_in = [], avail_out = 0, data_type = 0,
      skipFirst = skip, indexEvery = every, indexers = hs, from_file = f,
      window = stack, ret = 0, totalIn = 0, totalOut = 0, last' = 0, first = True,
      finder = new_finder,
      addIndex = \<lparr>uncompressedOffset = None, uncompressedEndOffset = None,
                  compressedOffset = None, bitOffset = None, window_blob = None\<rparr>,
      tables = \<lparr>AccessPoints = [], LineOffsets = []\<rparr>,
      logged = [], uncompressed = []\<rparr>"

text \<open>Lines 503 to 522: the last row, the rest of the window, the rows of the lines.\<close>

definition finish_build :: "'z build_vars \<Rightarrow> error + 'z build_vars" where
  "finish_build s =
     (let s1 = (if totalOut s \<noteq> 0 then flush_row s else s) in
      case finder_add (skipFirst s1) (finder s1) (indexers s1)
             (take (WindowSize - avail_out s1) (window s1)) True of
        Inl e \<Rightarrow> Inl e
      | Inr (fd, hs) \<Rightarrow>
          (case addLine_rows (lineOffsets fd) of
             Inl e \<Rightarrow> Inl e
           | Inr lines \<Rightarrow>
               Inr (s1\<lparr>finder := fd, indexers := hs,
                       tables := (tables s1)\<lparr>LineOffsets := lines\<rparr>\<rparr>)))"

definition build ::
  "'z zlib \<Rightarrow> nat \<Rightarrow> file_stat option \<Rightarrow> nat \<Rightarrow> nat \<Rightarrow> handlers \<Rightarrow> File \<Rightarrow> byte list
     \<Rightarrow> (error + 'z build_vars) option"
where
  "build zl fuel fstat skip every hs f stack =
     (if fstat = None then Some (Inl (ZlibError Z_DATA_ERROR))
      else case inflateInit2 zl ZlibOrGzip of (r, z) \<Rightarrow>
        (case X r of
           Inl e \<Rightarrow> Some (Inl e)
         | Inr _ \<Rightarrow>
             (case read_chunks zl fuel (start_build z skip every hs f stack) of
                None \<Rightarrow> None
              | Some (Inl e) \<Rightarrow> Some (Inl e)
              | Some (Inr s) \<Rightarrow> Some (finish_build s))))"

text \<open>
  When a turn of the inner loop logs a checkpoint. \<open>s\<close> is the state before the turn, \<open>s'\<close>
  the state after it. \<open>checkpoint_due\<close> is the test of the source (lines 462 to 468);
  \<open>spec_checkpoint_due\<close> is the policy in the words of the specification: at least
  \<^verbatim>\<open>index_every\<close> bytes since the last checkpoint, or no checkpoint yet and a cursor past
  zero.
\<close>

definition spec_checkpoint_due :: "'z build_vars \<Rightarrow> 'z build_vars \<Rightarrow> bool" where
  "spec_checkpoint_due s s' =
     (endOfBlock s' \<and> \<not> lastBlockInStream s'
      \<and> (totalOut s' - last' s \<ge> indexEvery s \<or> (logged s = [] \<and> totalOut s' > 0)))"

definition checkpoint_due :: "'z build_vars \<Rightarrow> 'z build_vars \<Rightarrow> bool" where
  "checkpoint_due s s' =
     (ret s' \<noteq> Z_STREAM_END \<and> endOfBlock s' \<and> \<not> lastBlockInStream s'
      \<and> (totalOut s' - last' s > indexEvery s \<or> totalOut s' = 0))"

section \<open>What the proofs about \<^verbatim>\<open>build\<close> use\<close>

text \<open>
  What is assumed of zlib for the access points: with \<^verbatim>\<open>Z_BLOCK\<close>, \<^verbatim>\<open>inflate\<close> writes nothing
  while it reads the header of the stream, and the call that completes the header returns
  with bit 7 of \<^verbatim>\<open>data_type\<close> set and bit 6 clear. (zlib.h: with \<^verbatim>\<open>Z_BLOCK\<close> inflate returns
  ``immediately after the header and before the first block'', and \<^verbatim>\<open>data_type\<close> has 128
  added after ``the complete header up to just before the first byte of the deflate
  stream''.) \<open>hdr\<close> tells the states in which the header is not yet complete.
\<close>

definition stops_after_header :: "'z zlib \<Rightarrow> ('z \<Rightarrow> bool) \<Rightarrow> bool" where
  "stops_after_header zl hdr =
     (hdr (snd (inflateInit2 zl ZlibOrGzip))
      \<and> (\<forall>z inp out. hdr z \<longrightarrow>
            (let r = inflate zl z inp out Z_BLOCK in
             produced r = []
             \<and> (hdr (new_state r)
                \<or> (new_data_type r AND 0x80 \<noteq> 0 \<and> new_data_type r AND 0x40 = 0)))))"

text \<open>
  \<open>chain start rows\<close>: each row begins where the row before it ended (the first at
  \<open>start\<close>); the result is the offset after the last row. \<open>ap_inv\<close> is what the loops of
  \<^verbatim>\<open>build\<close> keep: the rows inserted so far are such a chain from 0 to \<^verbatim>\<open>last\<close>, and \<^verbatim>\<open>last\<close>
  is bound as the next \<^verbatim>\<open>uncompressedOffset\<close>; before the first checkpoint nothing is
  inserted, nothing is written, and the header is not complete.
\<close>

fun chain :: "int \<Rightarrow> access_point list \<Rightarrow> int option" where
  "chain start [] = Some start"
| "chain start (r # rs) =
     (case (uncompressedOffset r, uncompressedEndOffset r) of
        (Some u, Some e) \<Rightarrow> if u = start then chain (e + 1) rs else None
      | _ \<Rightarrow> None)"

definition nonempty_range :: "access_point \<Rightarrow> bool" where
  "nonempty_range r =
     (case (uncompressedOffset r, uncompressedEndOffset r) of
        (Some u, Some e) \<Rightarrow> u \<le> e
      | _ \<Rightarrow> False)"

definition ap_inv :: "('z \<Rightarrow> bool) \<Rightarrow> 'z build_vars \<Rightarrow> bool" where
  "ap_inv hdr s =
     (last' s \<le> totalOut s
      \<and> list_all nonempty_range (AccessPoints (tables s))
      \<and> (case uncompressedOffset (addIndex s) of
           None \<Rightarrow> AccessPoints (tables s) = [] \<and> totalOut s = 0
                     \<and> (ret s \<noteq> Z_STREAM_END \<longrightarrow> hdr (state s))
         | Some u \<Rightarrow> u = int (last' s)
                     \<and> chain 0 (AccessPoints (tables s)) = Some (int (last' s))))"

text \<open>The two halves of a checkpoint: log and insert the pending row; bind the new one.\<close>

definition bind_checkpoint :: "'z build_vars \<Rightarrow> byte list \<Rightarrow> 'z build_vars" where
  "bind_checkpoint s2 apWindow =
     s2\<lparr>addIndex := (addIndex s2)
                   \<lparr>uncompressedOffset := Some (int (totalOut s2)),
                    compressedOffset := Some (int (totalIn s2)),
                    bitOffset := Some (int (data_type s2 AND 0x7)),
                    window_blob := Some apWindow\<rparr>,
                 last' := totalOut s2\<rparr>"

definition log_checkpoint :: "'z build_vars \<Rightarrow> 'z build_vars" where
  "log_checkpoint s =
     (let s1 = s\<lparr>logged := logged s @ [(totalOut s, totalIn s)]\<rparr>
      in if totalOut s1 \<noteq> 0 then flush_row s1 else s1)"

text \<open>
  \<open>snapshot stack U n\<close>: the 32 KiB before offset \<open>n\<close> of the output \<open>U\<close>; where fewer
  than 32 KiB were written, what the array \<^verbatim>\<open>window\<close> held at the start (\<open>stack\<close>) is in
  front.
\<close>

definition snapshot :: "byte list \<Rightarrow> byte list \<Rightarrow> nat \<Rightarrow> byte list" where
  "snapshot stack U n = drop n stack @ drop (n - WindowSize) (take n U)"

text \<open>
  What the loops of \<^verbatim>\<open>build\<close> keep of the window and the line finder (\<open>win_inv\<close>).
  \<open>filled\<close> bytes of the window are written in this round, \<open>flushed\<close> bytes of the output
  were handed to the line finder in the rounds before, a whole number of windows. The window
  is the output of this round followed by the rest of the window of the round before.
\<close>

definition filled :: "'z build_vars \<Rightarrow> nat" where
  "filled s = WindowSize - avail_out s"

definition flushed :: "'z build_vars \<Rightarrow> nat" where
  "flushed s = length (uncompressed s) - filled s"

definition win_inv :: "byte list \<Rightarrow> nat \<Rightarrow> handlers \<Rightarrow> 'z build_vars \<Rightarrow> bool" where
  "win_inv stack skip hs0 s =
     (length (window s) = WindowSize \<and> avail_out s \<le> WindowSize
      \<and> totalOut s = length (uncompressed s) \<and> skipFirst s = skip
      \<and> (if first s
          then avail_out s = 0 \<and> uncompressed s = [] \<and> window s = stack
               \<and> finder s = new_finder \<and> indexers s = hs0
          else filled s \<le> length (uncompressed s) \<and> WindowSize dvd flushed s
               \<and> window s = drop (flushed s) (uncompressed s)
                              @ drop (filled s) (snapshot stack (uncompressed s) (flushed s))
               \<and> finder_bytes skip new_finder hs0 (take (flushed s) (uncompressed s))
                   = Inr (finder s, indexers s)))"

text \<open>
  What the loops keep of the rows and of the bound row (\<open>rows_inv\<close>): the blob is what
  \<^verbatim>\<open>compress2\<close> made, with \<^verbatim>\<open>Z_OK\<close>, of the snapshot before the offset of the row.
\<close>

definition row_ok :: "'z zlib \<Rightarrow> byte list \<Rightarrow> byte list \<Rightarrow> access_point \<Rightarrow> bool" where
  "row_ok zl stack U r =
     (case uncompressedOffset r of
        None \<Rightarrow> True
      | Some u \<Rightarrow>
          0 \<le> u \<and> nat u \<le> length U
          \<and> (\<exists>blob. window_blob r = Some blob
                \<and> compress2 zl (snapshot stack U (nat u)) (compressBound zl WindowSize) 9
                    = (Z_OK, blob)))"

definition rows_inv :: "'z zlib \<Rightarrow> byte list \<Rightarrow> 'z build_vars \<Rightarrow> bool" where
  "rows_inv zl stack s =
     (row_ok zl stack (uncompressed s) (addIndex s)
      \<and> list_all (row_ok zl stack (uncompressed s)) (AccessPoints (tables s)))"

definition build_inv :: "'z zlib \<Rightarrow> byte list \<Rightarrow> nat \<Rightarrow> handlers \<Rightarrow> 'z build_vars \<Rightarrow> bool" where
  "build_inv zl stack skip hs0 s = (win_inv stack skip hs0 s \<and> rows_inv zl stack s)"

text \<open>
  The window of an early checkpoint in the words of the specification: the output so far
  preceded by zeros.
\<close>

definition spec_early_window :: "byte list \<Rightarrow> nat \<Rightarrow> byte list" where
  "spec_early_window U u = replicate (WindowSize - u) 0 @ take u U"

text \<open>
  The lines of a text, in the words of the specification: the runs of bytes that a byte
  \<open>0x0A\<close> ends, and the run after the last \<open>0x0A\<close> when it is not empty.
  \<open>complete_lines cur bs\<close> are the lines that end in \<open>bs\<close> when \<open>cur\<close> came before,
  \<open>rest_line cur bs\<close> is what follows the last of them.
\<close>

fun complete_lines :: "byte list \<Rightarrow> byte list \<Rightarrow> byte list list" where
  "complete_lines cur [] = []"
| "complete_lines cur (b # bs) =
     (if b = 0x0A then cur # complete_lines [] bs else complete_lines (cur @ [b]) bs)"

fun rest_line :: "byte list \<Rightarrow> byte list \<Rightarrow> byte list" where
  "rest_line cur [] = cur"
| "rest_line cur (b # bs) = (if b = 0x0A then rest_line [] bs else rest_line (cur @ [b]) bs)"

definition split_lines :: "byte list \<Rightarrow> byte list list" where
  "split_lines U = complete_lines [] U @ (if rest_line [] U = [] then [] else [rest_line [] U])"

text \<open>The offsets of lines that follow each other, each with its terminator.\<close>

fun offsets_from :: "nat \<Rightarrow> byte list list \<Rightarrow> nat list" where
  "offsets_from off [] = []"
| "offsets_from off (l # ls) = off # offsets_from (off + length l + 1) ls"


text \<open>
  The rows of \<^verbatim>\<open>LineOffsets\<close> that the lines of a text should have: number, offset of the
  first byte, and the length of the line with its terminator, one greater than that of the
  line.
\<close>

fun rows_of :: "nat \<Rightarrow> nat \<Rightarrow> byte list list \<Rightarrow> line_offset list" where
  "rows_of n off [] = []"
| "rows_of n off (l # ls) =
     \<lparr>lo_line = int (n + 1), lo_offset = int off, lo_length = int (length l + 1)\<rparr>
       # rows_of (n + 1) (off + length l + 1) ls"

text \<open>
  What the proofs about \<^verbatim>\<open>print\<close> assume of zlib on a raw stream. \<open>F\<close> are the bytes of the
  compressed file, \<open>U\<close> is the text it holds. \<open>D z c u\<close>: a raw decoder in state \<open>z\<close> has read
  the file up to offset \<open>c\<close> and written the text up to offset \<open>u\<close>. The raw stream does not
  reach the end of the file (the trailer of the zlib or gzip stream follows it), so input is
  always left. A call of \<^verbatim>\<open>inflate\<close> that is given input and room returns no error, reads
  no more than it is given, writes what comes next in the text, gets somewhere, and
  returns \<^verbatim>\<open>Z_STREAM_END\<close> only when the text is complete.
\<close>

definition decodes_raw ::
  "'z zlib \<Rightarrow> byte list \<Rightarrow> byte list \<Rightarrow> ('z \<Rightarrow> nat \<Rightarrow> nat \<Rightarrow> bool) \<Rightarrow> bool"
where
  "decodes_raw zl F U D =
     ((\<forall>z c u. D z c u \<longrightarrow> u \<le> length U \<and> c < length F)
      \<and> (\<forall>z c u k out. D z c u \<longrightarrow> 0 < k \<longrightarrow> c < length F \<longrightarrow> 0 < out \<longrightarrow>
           (let r = inflate zl z (take k (drop c F)) out Z_NO_FLUSH;
                written = take out (produced r)
            in ret_code r \<noteq> Z_NEED_DICT \<and> ret_code r \<noteq> Z_MEM_ERROR \<and> ret_code r \<noteq> Z_DATA_ERROR
             \<and> consumed r \<le> min k (length F - c)
             \<and> written = take (length written) (drop u U)
             \<and> D (new_state r) (c + consumed r) (u + length written)
             \<and> (0 < consumed r \<or> written \<noteq> [] \<or> ret_code r = Z_STREAM_END)
             \<and> (ret_code r = Z_STREAM_END \<longrightarrow> u + length written = length U))))"

text \<open>
  What the loops of \<^verbatim>\<open>print\<close> keep of the input: the file is the compressed file, and
  \<^verbatim>\<open>next_in\<close> holds the bytes before the read position that \<^verbatim>\<open>inflate\<close> has not read.
  \<open>cpos\<close> is the offset in the file of the next byte for \<^verbatim>\<open>inflate\<close>.
\<close>

definition cpos :: "'z print_vars \<Rightarrow> nat" where
  "cpos s = pos (compressed s) - avail_in s"

definition input_inv :: "byte list \<Rightarrow> 'z print_vars \<Rightarrow> bool" where
  "input_inv F s =
     (bytes (compressed s) = F \<and> \<not> failing (compressed s)
      \<and> avail_in s \<le> pos (compressed s) \<and> pos (compressed s) \<le> length F
      \<and> next_in s = take (avail_in s) (drop (cpos s) F))"

text \<open>
  What the proofs about reading assume of zlib when \<^verbatim>\<open>build\<close> decodes the file.
  \<open>B z dt c u\<close>: the decoder of \<^verbatim>\<open>build\<close> in state \<open>z\<close>, with \<^verbatim>\<open>data_type\<close> \<open>dt\<close>, has read the
  file up to offset \<open>c\<close> and written the text up to offset \<open>u\<close>. A call of \<^verbatim>\<open>inflate\<close> with
  \<^verbatim>\<open>Z_BLOCK\<close> that is given input and room and returns no error reads no more than it is
  given and writes what comes next in the text; \<^verbatim>\<open>Z_STREAM_END\<close> comes when the text is
  complete. Where \<^verbatim>\<open>data_type\<close> shows the end of a block that is not the last, the place is
  one where decoding can be resumed (\<open>R\<close>).
\<close>

definition boundary :: "nat \<Rightarrow> bool" where
  "boundary dt = (dt AND 0x80 \<noteq> 0 \<and> dt AND 0x40 = 0)"

definition decodes_blocks ::
  "'z zlib \<Rightarrow> byte list \<Rightarrow> byte list \<Rightarrow> ('z \<Rightarrow> nat \<Rightarrow> nat \<Rightarrow> nat \<Rightarrow> bool)
     \<Rightarrow> (nat \<Rightarrow> nat \<Rightarrow> nat \<Rightarrow> bool) \<Rightarrow> bool"
where
  "decodes_blocks zl F U B R =
     (B (snd (inflateInit2 zl ZlibOrGzip)) 0 0 0
      \<and> (\<forall>z dt c u. B z dt c u \<longrightarrow> u \<le> length U \<and> (boundary dt \<longrightarrow> R c (dt AND 7) u))
      \<and> (\<forall>z dt c u k out. B z dt c u \<longrightarrow> 0 < k \<longrightarrow> c < length F \<longrightarrow> 0 < out \<longrightarrow>
           (let r = inflate zl z (take k (drop c F)) out Z_BLOCK;
                written = take out (produced r)
            in ret_code r \<noteq> Z_NEED_DICT \<longrightarrow> ret_code r \<noteq> Z_MEM_ERROR \<longrightarrow> ret_code r \<noteq> Z_DATA_ERROR
             \<longrightarrow> consumed r \<le> min k (length F - c)
               \<and> written = take (length written) (drop u U)
               \<and> B (new_state r) (new_data_type r) (c + consumed r) (u + length written)
               \<and> (ret_code r = Z_STREAM_END \<longrightarrow> u + length written = length U))))"

text \<open>
  A place where decoding can be resumed, as \<^verbatim>\<open>print\<close> does it: a raw stream is created,
  primed with the last \<open>b\<close> bits of the byte before offset \<open>c\<close>, and given as dictionary
  the 32 KiB of text before offset \<open>u\<close>, with anything in front where the text is shorter.
  All three calls return \<^verbatim>\<open>Z_OK\<close>, and the decoder stands at \<open>c\<close> and \<open>u\<close>.
\<close>

definition resume_point ::
  "'z zlib \<Rightarrow> byte list \<Rightarrow> byte list \<Rightarrow> ('z \<Rightarrow> nat \<Rightarrow> nat \<Rightarrow> bool) \<Rightarrow> nat \<Rightarrow> nat \<Rightarrow> nat \<Rightarrow> bool"
where
  "resume_point zl F U D c b u =
     ((b \<noteq> 0 \<longrightarrow> 0 < c)
      \<and> (\<forall>stack. length stack = WindowSize \<longrightarrow>
            (case inflateInit2 zl Raw of (r0, z0) \<Rightarrow>
               r0 = Z_OK
               \<and> (case (if b \<noteq> 0
                         then inflatePrime zl z0 (int b) (uint (F ! (c - 1)) div 2 ^ nat (8 - int b))
                         else (Z_OK, z0)) of
                    (r1, z1) \<Rightarrow>
                      r1 = Z_OK
                      \<and> (case inflateSetDictionary zl z1 (snapshot stack U u) of
                           (r2, z2) \<Rightarrow> r2 = Z_OK \<and> D z2 c u)))))"

text \<open>
  What the loops of \<^verbatim>\<open>build\<close> keep of the input and of the decoder (\<open>dec_inv\<close>): \<^verbatim>\<open>next_in\<close>
  holds the bytes of the file from \<^verbatim>\<open>totalIn\<close> to the read position, the decoder stands at
  \<^verbatim>\<open>totalIn\<close> and \<^verbatim>\<open>totalOut\<close>, and every row, inserted or bound, is a place to resume.
\<close>

definition source_inv :: "byte list \<Rightarrow> 'z build_vars \<Rightarrow> bool" where
  "source_inv F s =
     (bytes (from_file s) = F \<and> \<not> failing (from_file s)
      \<and> pos (from_file s) = totalIn s + avail_in s \<and> pos (from_file s) \<le> length F
      \<and> next_in s = take (avail_in s) (drop (totalIn s) F))"

definition resumable_row :: "byte list \<Rightarrow> (nat \<Rightarrow> nat \<Rightarrow> nat \<Rightarrow> bool) \<Rightarrow> access_point \<Rightarrow> bool" where
  "resumable_row F R r =
     (case uncompressedOffset r of
        None \<Rightarrow> True
      | Some u \<Rightarrow>
          (\<exists>c b. compressedOffset r = Some (int c) \<and> bitOffset r = Some (int b)
              \<and> c \<le> length F \<and> 0 \<le> u \<and> R c b (nat u)))"

definition dec_inv ::
  "byte list \<Rightarrow> byte list \<Rightarrow> ('z \<Rightarrow> nat \<Rightarrow> nat \<Rightarrow> nat \<Rightarrow> bool) \<Rightarrow> (nat \<Rightarrow> nat \<Rightarrow> nat \<Rightarrow> bool)
     \<Rightarrow> 'z build_vars \<Rightarrow> bool"
where
  "dec_inv F U B R s =
     (source_inv F s
      \<and> B (state s) (data_type s) (totalIn s) (totalOut s)
      \<and> uncompressed s = take (totalOut s) U
      \<and> (ret s = Z_STREAM_END \<longrightarrow> totalOut s = length U)
      \<and> resumable_row F R (addIndex s)
      \<and> list_all (resumable_row F R) (AccessPoints (tables s)))"

text \<open>\<^verbatim>\<open>compress2\<close> and \<^verbatim>\<open>uncompress\<close> on a window: what was compressed comes back.\<close>

definition window_roundtrip :: "'z zlib \<Rightarrow> bool" where
  "window_roundtrip zl =
     (\<forall>d blob. length d = WindowSize
        \<longrightarrow> compress2 zl d (compressBound zl WindowSize) 9 = (Z_OK, blob)
        \<longrightarrow> uncompress zl blob WindowSize = (Z_OK, d))"

text \<open>
  A row of \<^verbatim>\<open>AccessPoints\<close> from which the text \<open>U\<close> of the file \<open>F\<close> can be read: its blob
  uncompresses to the 32 KiB of text before its \<^verbatim>\<open>uncompressedOffset\<close> (with anything in front
  where the text is shorter), and its \<^verbatim>\<open>compressedOffset\<close> and \<^verbatim>\<open>bitOffset\<close> are a place where
  decoding can be resumed.
\<close>

definition resumable_at ::
  "'z zlib \<Rightarrow> byte list \<Rightarrow> byte list \<Rightarrow> ('z \<Rightarrow> nat \<Rightarrow> nat \<Rightarrow> bool) \<Rightarrow> access_point \<Rightarrow> bool"
where
  "resumable_at zl F U D ap =
     (\<exists>u c b blob stack.
        uncompressedOffset ap = Some (int u) \<and> compressedOffset ap = Some (int c)
        \<and> bitOffset ap = Some (int b) \<and> window_blob ap = Some blob
        \<and> u \<le> length U \<and> c \<le> length F \<and> length stack = WindowSize
        \<and> uncompress zl blob WindowSize = (Z_OK, snapshot stack U u)
        \<and> resume_point zl F U D c b u)"

text \<open>What the sink sees of a call: \<open>len\<close> bytes at the pointer.\<close>

definition visible :: "sink_call \<Rightarrow> byte list" where
  "visible c = (case c of (n, off, buf, len) \<Rightarrow> take (nat len) buf)"

section \<open>Inputs for the examples\<close>

text \<open>An indexer that gives the whole line as its key, and a numeric handler with it.\<close>

definition whole_line :: line_indexer where
  "whole_line line = ([(line, 0)], None)"

definition numeric_handler0 :: index_handler where
  "numeric_handler0 =
     \<lparr>numeric = True, unique_key = False, indexer = whole_line, currentLine = 0, rows = [],
      indexed = []\<rparr>"

text \<open>The metadata of an index built from a file of 100 bytes, last modified at time 5.\<close>

definition metadata_table0 :: "(string \<times> string) list" where
  "metadata_table0 =
     [(''version'', ''1''), (''compressedFile'', ''a.gz''),
      (''compressedSize'', ''100''), (''compressedModTime'', ''5'')]"

text \<open>
  A small codec of stored blocks, to run the model on: one header byte; blocks of one head
  byte (twice the payload length, plus one in the last block) and the payload; one trailer
  byte. A raw stream starts at a block head. Everything is byte aligned, the dictionary is
  not needed, and compressing or uncompressing a window is the identity.
\<close>

datatype toy_state = Header | Head | Payload bool nat | Trailer | Done

definition toy_inflate :: "bool \<times> toy_state \<Rightarrow> byte list \<Rightarrow> nat \<Rightarrow> int \<Rightarrow> (bool \<times> toy_state) inflate_result" where
  "toy_inflate z inp out flush =
     (case z of (wrap, st) \<Rightarrow>
      (case st of
         Header \<Rightarrow>
           (if inp = [] then \<lparr>ret_code = - 5, consumed = 0, produced = [], new_data_type = 0, new_state = z\<rparr>
            else \<lparr>ret_code = 0, consumed = 1, produced = [], new_data_type = 128, new_state = (wrap, Head)\<rparr>)
       | Head \<Rightarrow>
           (if inp = [] then \<lparr>ret_code = - 5, consumed = 0, produced = [], new_data_type = 0, new_state = z\<rparr>
            else \<lparr>ret_code = 0, consumed = 1, produced = [],
                   new_data_type = (if odd (unat (hd inp)) then 64 else 0),
                   new_state = (wrap, Payload (odd (unat (hd inp))) (unat (hd inp) div 2))\<rparr>)
       | Payload final rem \<Rightarrow>
           (let m = min rem (min (length inp) out) in
            \<lparr>ret_code = (if m = 0 \<and> rem \<noteq> 0 then - 5 else 0),
             consumed = m, produced = take m inp,
             new_data_type = (if rem - m = 0 then 128 else 0) + (if final then 64 else 0),
             new_state = (wrap, if rem - m \<noteq> 0 then Payload final (rem - m)
                                else if \<not> final then Head
                                else if wrap then Trailer else Done)\<rparr>)
       | Trailer \<Rightarrow>
           (if inp = [] then \<lparr>ret_code = - 5, consumed = 0, produced = [], new_data_type = 64, new_state = z\<rparr>
            else \<lparr>ret_code = 1, consumed = 1, produced = [], new_data_type = 64, new_state = (wrap, Done)\<rparr>)
       | Done \<Rightarrow>
           \<lparr>ret_code = 1, consumed = 0, produced = [], new_data_type = 64, new_state = z\<rparr>))"

definition toy_zlib :: "(bool \<times> toy_state) zlib" where
  "toy_zlib =
     \<lparr>inflateInit2 = (\<lambda>w. (0, (w \<noteq> Raw, if w = Raw then Head else Header))),
      inflatePrime = (\<lambda>z b v. (0, z)),
      inflateSetDictionary = (\<lambda>z w. (0, z)),
      inflate = toy_inflate,
      compress2 = (\<lambda>d cap level. (0, d)),
      uncompress = (\<lambda>d cap. (0, d)),
      compressBound = (\<lambda>n. n)\<rparr>"

text \<open>
  The text of three lines \<open>a\<close>, \<open>b\<close>, \<open>c\<close> in two blocks of three bytes, and the index that
  belongs to it, with an access point at each block.
\<close>

definition abc_file :: File where
  "abc_file = \<lparr>bytes = [0x78, 6, 97, 10, 98, 7, 10, 99, 10, 0], pos = 0, failing = False\<rparr>"

definition zero_window :: "byte list" where
  "zero_window = replicate WindowSize 0"

definition abc_db :: index_db where
  "abc_db =
     \<lparr>AccessPoints =
        [\<lparr>uncompressedOffset = Some 0, uncompressedEndOffset = Some 2, compressedOffset = Some 1,
          bitOffset = Some 0, window_blob = Some zero_window\<rparr>,
         \<lparr>uncompressedOffset = Some 3, uncompressedEndOffset = Some 5, compressedOffset = Some 5,
          bitOffset = Some 0, window_blob = Some (drop 3 zero_window @ [97, 10, 98])\<rparr>],
      LineOffsets =
        [\<lparr>lo_line = 1, lo_offset = 0, lo_length = 2\<rparr>,
         \<lparr>lo_line = 2, lo_offset = 2, lo_length = 2\<rparr>,
         \<lparr>lo_line = 3, lo_offset = 4, lo_length = 2\<rparr>]\<rparr>"

text \<open>
  The states of the build of that file after the first chunk is read, after the header,
  after the head of the first block and after the first block.
\<close>

definition first_chunk :: "(bool \<times> toy_state) build_vars" where
  "first_chunk =
     (start_build (True, Header) 0 DefaultIndexEvery [] abc_file zero_window)
       \<lparr>next_in := bytes abc_file, from_file := abc_file\<lparr>pos := 10\<rparr>\<rparr>"

definition after_header :: "(bool \<times> toy_state) build_vars" where
  "after_header =
     first_chunk\<lparr>state := (True, Head), next_in := tl (bytes abc_file), avail_out := 32768,
       data_type := 128, totalIn := 1, first := False,
       addIndex := \<lparr>uncompressedOffset = Some 0, uncompressedEndOffset = None,
                   compressedOffset = Some 1, bitOffset = Some 0, window_blob = Some zero_window\<rparr>,
       logged := [(0, 1)]\<rparr>"

definition after_head :: "(bool \<times> toy_state) build_vars" where
  "after_head =
     after_header\<lparr>state := (True, Payload False 3), next_in := drop 2 (bytes abc_file),
       data_type := 0, totalIn := 2\<rparr>"

definition after_block :: "(bool \<times> toy_state) build_vars" where
  "after_block =
     after_head\<lparr>state := (True, Head), next_in := drop 5 (bytes abc_file), avail_out := 32765,
       data_type := 128, totalIn := 5, totalOut := 3,
       window := [97, 10, 98] @ drop 3 zero_window, uncompressed := [97, 10, 98]\<rparr>"

text \<open>The variables of the build of that file at its end, with a checkpoint wanted every byte.\<close>

definition abc_built :: "(bool \<times> toy_state) build_vars" where
  "abc_built =
     \<lparr>state = (True, Done), next_in = [], avail_out = 32762, data_type = 64,
      skipFirst = 0, indexEvery = 1, indexers = [], from_file = abc_file\<lparr>pos := 10\<rparr>,
      window = [97, 10, 98, 10, 99, 10] @ drop 6 zero_window, ret = 1, totalIn = 10,
      totalOut = 6, last' = 3, first = False,
      finder = \<lparr>lineOffsets = [0, 2, 4, 6], lineData = [], cursor = 6\<rparr>,
      addIndex = AccessPoints abc_db ! 1, tables = abc_db,
      logged = [(0, 1), (3, 5)], uncompressed = [97, 10, 98, 10, 99, 10]\<rparr>"

text \<open>The same build when the array on the stack holds the byte 255 everywhere.\<close>

definition ff_window :: "byte list" where
  "ff_window = replicate WindowSize 255"

definition abc_built_ff :: "(bool \<times> toy_state) build_vars" where
  "abc_built_ff =
     abc_built\<lparr>window := [97, 10, 98, 10, 99, 10] @ drop 6 ff_window,
       addIndex := (AccessPoints abc_db ! 1)\<lparr>window_blob := Some (drop 3 ff_window @ [97, 10, 98])\<rparr>,
       tables := abc_db\<lparr>AccessPoints :=
         [(AccessPoints abc_db ! 0)\<lparr>window_blob := Some ff_window\<rparr>,
          (AccessPoints abc_db ! 1)\<lparr>window_blob := Some (drop 3 ff_window @ [97, 10, 98])\<rparr>]\<rparr>\<rparr>"



text \<open>
  The text of a line \<open>a\<close> and a line \<open>b\<close> that nothing ends, in two blocks, the second one
  the byte \<open>b\<close> alone.
\<close>

definition tail_file :: File where
  "tail_file = \<lparr>bytes = [0x78, 4, 97, 10, 3, 98, 0], pos = 0, failing = False\<rparr>"

definition tail_text :: "byte list" where
  "tail_text = [97, 10, 98]"

text \<open>
  Where the decoder of the small codec stands after each byte of that file: its state, its
  \<^verbatim>\<open>data_type\<close>, the bytes of text written.
\<close>

definition toy_states :: "toy_state list" where
  "toy_states = [Header, Head, Payload False 2, Payload False 1, Head, Payload True 1, Trailer, Done]"

definition toy_types :: "nat list" where
  "toy_types = [0, 128, 0, 0, 128, 64, 192, 64]"

definition toy_outs :: "nat list" where
  "toy_outs = [0, 0, 0, 1, 2, 2, 3, 3]"

definition toy_B :: "bool \<times> toy_state \<Rightarrow> nat \<Rightarrow> nat \<Rightarrow> nat \<Rightarrow> bool" where
  "toy_B z dt c u =
     (c \<le> 7 \<and> z = (True, toy_states ! c) \<and> dt = toy_types ! c \<and> u = toy_outs ! c)"

definition toy_D :: "bool \<times> toy_state \<Rightarrow> nat \<Rightarrow> nat \<Rightarrow> bool" where
  "toy_D z c u =
     (1 \<le> c \<and> c \<le> 6 \<and> z = (False, if c = 6 then Done else toy_states ! c) \<and> u = toy_outs ! c)"

text \<open>The index that belongs to that file, with an access point at each block.\<close>

definition tail_db :: index_db where
  "tail_db =
     \<lparr>AccessPoints =
        [\<lparr>uncompressedOffset = Some 0, uncompressedEndOffset = Some 1, compressedOffset = Some 1,
          bitOffset = Some 0, window_blob = Some zero_window\<rparr>,
         \<lparr>uncompressedOffset = Some 2, uncompressedEndOffset = Some 2, compressedOffset = Some 4,
          bitOffset = Some 0, window_blob = Some (drop 2 zero_window @ [97, 10])\<rparr>],
      LineOffsets =
        [\<lparr>lo_line = 1, lo_offset = 0, lo_length = 2\<rparr>,
         \<lparr>lo_line = 2, lo_offset = 2, lo_length = 2\<rparr>]\<rparr>"

text \<open>The variables of the build of that file at its end, with a checkpoint wanted every byte.\<close>

definition tail_built :: "(bool \<times> toy_state) build_vars" where
  "tail_built =
     \<lparr>state = (True, Done), next_in = [], avail_out = 32765, data_type = 64,
      skipFirst = 0, indexEvery = 1, indexers = [], from_file = tail_file\<lparr>pos := 7\<rparr>,
      window = [97, 10, 98] @ drop 3 zero_window, ret = 1, totalIn = 7,
      totalOut = 3, last' = 2, first = False,
      finder = \<lparr>lineOffsets = [0, 2, 4], lineData = [], cursor = 3\<rparr>,
      addIndex = AccessPoints tail_db ! 1, tables = tail_db,
      logged = [(0, 1), (2, 4)], uncompressed = [97, 10, 98]\<rparr>"

section \<open>Properties of the key handlers\<close>

lemma of_char_less_256: "(of_char c :: nat) < 256"
proof -
  have "(of_char c :: nat) mod 256 = of_char c" by (rule of_char_mod_256)
  moreover have "(of_char c :: nat) mod 256 < 256" by simp
  ultimately show ?thesis by simp
qed

lemma of_char_int_less_256: "(of_char c :: int) < 256"
proof -
  have "int (of_char c) < 256" using of_char_less_256 [of c] by linarith
  then show ?thesis by (simp only: of_nat_of_char)
qed

lemma char_val_digit: "is_digit c \<Longrightarrow> char_val c = int (of_char c)"
  by (auto simp: is_digit_def char_val_def)

lemma char_val_0: "char_val CHR ''0'' = 48"
  by (simp add: char_val_def)

lemma char_val_9: "char_val CHR ''9'' = 57"
  by (simp add: char_val_def)

lemma digit_test: "(char_val c < char_val CHR ''0'' \<or> char_val c > char_val CHR ''9'') = (\<not> is_digit c)"
proof -
  define n where "n = (of_char c :: nat)"
  have b: "n < 256" unfolding n_def by (rule of_char_less_256)
  have cv: "char_val c = (if n < 128 then int n else int n - 256)"
    unfolding char_val_def n_def ..
  have dg: "is_digit c = (48 \<le> n \<and> n \<le> 57)"
    unfolding is_digit_def n_def ..
  show ?thesis unfolding cv dg char_val_0 char_val_9 using b by auto
qed

lemma add_digits_ok:
  assumes "val = word_of_nat n" and "list_all is_digit cs"
  shows "add_digits k val cs = Inr (word_of_nat (foldl (\<lambda>a c. a * 10 + (of_char c - 48)) n cs))"
  using assms
proof (induction cs arbitrary: val n)
  case Nil
  then show ?case by simp
next
  case (Cons c cs)
  have d: "is_digit c" and r: "list_all is_digit cs" using Cons.prems(2) by simp_all
  have t: "\<not> (char_val c < char_val CHR ''0'' \<or> char_val c > char_val CHR ''9'')" using d by (simp add: digit_test)
  have ge: "48 \<le> (of_char c :: nat)" using d by (simp add: is_digit_def)
  have v: "val * 10 + word_of_int (char_val c - char_val CHR ''0'') = (word_of_nat (n * 10 + (of_char c - 48)) :: 64 word)"
    using ge by (simp add: Cons.prems(1) char_val_digit [OF d] char_val_0 of_nat_diff)
  show ?case
    using t Cons.IH [OF v r] by (simp add: Let_def)
qed


lemma numeric_key_valid:
  assumes "valid_numeric_key k"
  shows "numeric_key k = Inr (word_of_int (key_int k))"
proof -
  have ne: "key_digits k \<noteq> []" and dg: "list_all is_digit (key_digits k)"
    using assms by (simp_all add: valid_numeric_key_def)
  have "add_digits k 0 (key_digits k) = Inr (word_of_nat (decimal (key_digits k)))"
    using add_digits_ok [of 0 0 "key_digits k" k] dg by (simp add: decimal_def)
  then show ?thesis
    using ne by (auto simp: numeric_key_def key_digits_def key_int_def Let_def)
qed


lemma sint_wrap: "sint (word_of_nat n :: 64 word) = (int n + 2 ^ 63) mod 2 ^ 64 - 2 ^ 63"
proof -
  have "uint (word_of_nat n :: 64 word) = int n mod 2 ^ 64"
    by (simp add: unsigned_of_nat take_bit_eq_mod of_nat_mod)
  then show ?thesis
    by (simp add: sint_uint signed_take_bit_eq_take_bit_shift take_bit_eq_mod mod_add_left_eq)
qed





text \<open>
  Claim C10. \<^verbatim>\<open>NumericHandler::add\<close> has no overflow check: on every non-empty string of decimal
  digits the parse succeeds, and the key handed to the insert statement is the decimal value
  modulo \<open>2^64\<close>, read as a signed 64-bit integer. In particular a value beyond the
  \<^verbatim>\<open>int64_t\<close> range is stored wrapped and no error is raised.
\<close>

theorem numeric_key_wraps:
  assumes "ds \<noteq> []" and "list_all is_digit ds"
  shows "numeric_key ds = Inr (word_of_nat (decimal ds))
       \<and> sint (word_of_nat (decimal ds) :: 64 word) = (int (decimal ds) + 2 ^ 63) mod 2 ^ 64 - 2 ^ 63
       \<and> NumericHandler_add h ds off
           = insert_step h (IntKey (word_of_nat (decimal ds)), currentLine h, off)"
proof -
  have nd: "hd ds \<noteq> CHR ''-''"
    using assms by (cases ds) (auto simp: is_digit_def)
  then have kd: "key_digits ds = ds" by (simp add: key_digits_def)
  have "valid_numeric_key ds" using assms by (simp add: valid_numeric_key_def kd)
  then have "numeric_key ds = Inr (word_of_int (key_int ds))" by (rule numeric_key_valid)
  then have nk: "numeric_key ds = Inr (word_of_nat (decimal ds))"
    using nd by (simp add: key_int_def)
  show ?thesis
    by (simp add: nk sint_wrap NumericHandler_add_def)
qed

theorem numeric_key_wraps_witness:
  "''9223372036854775808'' \<noteq> [] \<and> list_all is_digit ''9223372036854775808''
   \<and> decimal ''9223372036854775808'' = 2 ^ 63
   \<and> numeric_key ''9223372036854775808'' = Inr (word_of_nat (2 ^ 63))
   \<and> sint (word_of_nat (2 ^ 63) :: 64 word) = - (2 ^ 63)
   \<and> NumericHandler_add numeric_handler0 ''9223372036854775808'' 0
       = Inr (numeric_handler0\<lparr>rows := [(IntKey (word_of_nat (2 ^ 63)), 0, 0)]\<rparr>)"
  using numeric_key_wraps [of "''9223372036854775808''" numeric_handler0 0]
  by (simp add: is_digit_def decimal_def insert_step_def numeric_handler0_def)

section \<open>Properties of \<^verbatim>\<open>Index::load\<close>\<close>

lemma check_size_Inr: "\<exists>w. check_size m stats True = Inr w"
  by (simp add: check_size_def Let_def)

lemma check_mtime_Inr: "\<exists>w. check_mtime m stats True = Inr w"
  by (simp add: check_mtime_def Let_def)

lemma Impl_init_stale:
  assumes "(\<exists>s. m ''compressedSize'' = Some s \<and> s \<noteq> to_string_int (st_size stats))
         \<or> (\<exists>t. m ''compressedModTime'' = Some t \<and> t \<noteq> to_string_int (st_mtime stats))"
  shows "Impl_init m (Some stats) False
           \<in> {Inl (RuntimeError ''Compressed size changed since index was built''),
              Inl (RuntimeError ''Compressed file has been modified since index was built'')}"
    and "\<exists>w. Impl_init m (Some stats) True = Inr w \<and> w \<noteq> []"
proof -
  show "Impl_init m (Some stats) False
           \<in> {Inl (RuntimeError ''Compressed size changed since index was built''),
              Inl (RuntimeError ''Compressed file has been modified since index was built'')}"
    using assms by (auto simp: Impl_init_def check_size_def check_mtime_def Let_def)
  obtain w1 w2 where w: "check_size m stats True = Inr w1" "check_mtime m stats True = Inr w2"
    using check_size_Inr check_mtime_Inr by blast
  have "w1 \<noteq> [] \<or> w2 \<noteq> []"
    using assms w by (auto simp: check_size_def check_mtime_def Let_def split: if_splits)
  then show "\<exists>w. Impl_init m (Some stats) True = Inr w \<and> w \<noteq> []"
    using w by (simp add: Impl_init_def)
qed

text \<open>
  Claim C6. When the index file opens and \<^verbatim>\<open>fstat\<close> succeeds, and the
  \<^verbatim>\<open>compressedSize\<close> or the \<^verbatim>\<open>compressedModTime\<close> read from the table \<^verbatim>\<open>Metadata\<close> differs from
  the decimal rendering of the file's current size or modification time, \<^verbatim>\<open>Index::load\<close>
  without \<open>force\<close> throws one of the two \<^verbatim>\<open>std::runtime_error\<close>s of \<^verbatim>\<open>init\<close>; with \<open>force\<close> it
  returns the index, and \<^verbatim>\<open>init\<close> has logged at least one warning.
\<close>

theorem load_detects_stale_index:
  assumes "m = read_metadata table"
    and "(\<exists>s. m ''compressedSize'' = Some s \<and> s \<noteq> to_string_int (st_size stats))
       \<or> (\<exists>t. m ''compressedModTime'' = Some t \<and> t \<noteq> to_string_int (st_mtime stats))"
  shows "(Index_load (Inr (table, failure)) (Some stats) False
            = Inl (RuntimeError ''Compressed size changed since index was built'')
          \<or> Index_load (Inr (table, failure)) (Some stats) False
            = Inl (RuntimeError ''Compressed file has been modified since index was built''))
       \<and> (\<exists>warnings. Index_load (Inr (table, failure)) (Some stats) True
               = Inr (m, caught_warning failure @ warnings)
             \<and> warnings \<noteq> [])"
proof -
  from Impl_init_stale(2) [OF assms(2)]
  obtain w where "Impl_init m (Some stats) True = Inr w" and "w \<noteq> []" by blast
  then have "\<exists>warnings. Index_load (Inr (table, failure)) (Some stats) True
               = Inr (m, caught_warning failure @ warnings)
             \<and> warnings \<noteq> []"
    by (simp add: Index_load_def assms(1) Let_def)
  moreover have "Index_load (Inr (table, failure)) (Some stats) False
            = Inl (RuntimeError ''Compressed size changed since index was built'')
          \<or> Index_load (Inr (table, failure)) (Some stats) False
            = Inl (RuntimeError ''Compressed file has been modified since index was built'')"
    using Impl_init_stale(1) [OF assms(2)]
    by (auto simp: Index_load_def assms(1) Let_def)
  ultimately show ?thesis by blast
qed

theorem load_detects_stale_index_witness:
  "read_metadata metadata_table0 ''compressedSize'' = Some ''100''
   \<and> ''100'' \<noteq> to_string_int (st_size \<lparr>st_size = 99, st_mtime = 5\<rparr>)
   \<and> Index_load (Inr (metadata_table0, None)) (Some \<lparr>st_size = 99, st_mtime = 5\<rparr>) False
       = Inl (RuntimeError ''Compressed size changed since index was built'')
   \<and> Index_load (Inr (metadata_table0, None)) (Some \<lparr>st_size = 99, st_mtime = 5\<rparr>) True
       = Inr (read_metadata metadata_table0,
              [''Expected compressed size mismatched, continuing anyway (99 vs expected 100)''])
   \<and> Index_load (Inr (metadata_table0, None)) (Some \<lparr>st_size = 100, st_mtime = 6\<rparr>) False
       = Inl (RuntimeError ''Compressed file has been modified since index was built'')
   \<and> Index_load (Inr (metadata_table0, None)) (Some \<lparr>st_size = 100, st_mtime = 5\<rparr>) False
       = Inr (read_metadata metadata_table0, [])"
  using load_detects_stale_index [of "read_metadata metadata_table0" metadata_table0
          "\<lparr>st_size = 99, st_mtime = 5\<rparr>" None]
  by (simp add: Index_load_def caught_warning_def Impl_init_def check_size_def check_mtime_def read_metadata_def
        metadata_table0_def emplace_def to_string_int_def to_string.simps digit_char_def
        size_warning_def Let_def)

section \<open>Properties of \<^verbatim>\<open>getLine\<close> and \<^verbatim>\<open>print\<close>\<close>

lemma lineQuery_None_iff:
  "lineQuery db n = None \<longleftrightarrow>
     (\<forall>lo\<in>set (LineOffsets db). \<forall>ap\<in>set (AccessPoints db). \<not> (covers ap lo \<and> lo_line lo = n))"
proof -
  have "lineQuery db n = None \<longleftrightarrow>
      filter (\<lambda>(lo, ap). covers ap lo \<and> lo_line lo = n)
        (List.product (LineOffsets db) (AccessPoints db)) = []"
    by (simp add: lineQuery_def split: list.split)
  also have "\<dots> \<longleftrightarrow>
     (\<forall>lo\<in>set (LineOffsets db). \<forall>ap\<in>set (AccessPoints db). \<not> (covers ap lo \<and> lo_line lo = n))"
    by (auto simp: filter_empty_conv)
  finally show ?thesis .
qed

lemma lineQuery_Some:
  assumes "lineQuery db n = Some (lo, ap)"
  shows "lo \<in> set (LineOffsets db)" and "ap \<in> set (AccessPoints db)"
    and "covers ap lo" and "lo_line lo = n"
proof -
  let ?P = "\<lambda>(lo, ap). covers ap lo \<and> lo_line lo = n"
  obtain rest where "filter ?P (List.product (LineOffsets db) (AccessPoints db)) = (lo, ap) # rest"
    using assms by (auto simp: lineQuery_def split: list.splits)
  then have "(lo, ap) \<in> set (filter ?P (List.product (LineOffsets db) (AccessPoints db)))"
    by simp
  then show "lo \<in> set (LineOffsets db)" and "ap \<in> set (AccessPoints db)"
    and "covers ap lo" and "lo_line lo = n"
    by auto
qed

text \<open>
  Claim C8. When the query \<^verbatim>\<open>lineQuery_\<close> has no row for the line number, in particular when
  no row of \<^verbatim>\<open>LineOffsets\<close> has that line number, \<^verbatim>\<open>getLine\<close> returns at once: no exception,
  the sink has received no call, and the loops are not entered (any bound on them will do).
\<close>

theorem getLine_missing_line:
  "(lineQuery db (to_int64 n) = None \<longrightarrow> getLine zl fuel db f n sink = Some (Inr sink))
   \<and> ((\<forall>lo\<in>set (LineOffsets db). lo_line lo \<noteq> to_int64 n) \<longrightarrow>
        getLine zl fuel db f n sink = Some (Inr sink))"
proof (intro conjI impI)
  assume "lineQuery db (to_int64 n) = None"
  then show "getLine zl fuel db f n sink = Some (Inr sink)"
    by (simp add: getLine_def)
next
  assume "\<forall>lo\<in>set (LineOffsets db). lo_line lo \<noteq> to_int64 n"
  then have "lineQuery db (to_int64 n) = None"
    by (simp add: lineQuery_None_iff)
  then show "getLine zl fuel db f n sink = Some (Inr sink)"
    by (simp add: getLine_def)
qed

text \<open>
  What the loops of \<^verbatim>\<open>print\<close> keep (\<open>buf_inv\<close>): nothing is in \<^verbatim>\<open>lineBuf\<close> while skipping;
  afterwards what is written and what is still free add up to the size given to \<^verbatim>\<open>avail_out\<close>.
\<close>

lemma fill_input_keeps:
  assumes "fill_input s = Inr s1"
  shows "skipping s1 = skipping s" and "lineBuf s1 = lineBuf s" and "avail_out s1 = avail_out s"
    and "numToSkip s1 = numToSkip s"
  using assms by (auto simp: fill_input_def split: if_splits prod.splits)

lemma print_inflate_keeps:
  assumes "print_inflate zl s1 = (r, s2)"
  shows "skipping s2 = skipping s1" and "numToSkip s2 = numToSkip s1"
    and "buf_inv len s1 \<Longrightarrow> buf_inv len s2"
  using assms by (auto simp: print_inflate_def Let_def buf_inv_def)

lemma inflate_loop_keeps:
  assumes "inflate_loop zl n s = Some (Inr s')" and "buf_inv len s"
  shows "skipping s' = skipping s \<and> numToSkip s' = numToSkip s \<and> buf_inv len s'"
  using assms
proof (induction n arbitrary: s)
  case 0
  then show ?case by (simp add: inflate_loop.simps)
next
  case (Suc n)
  note run = Suc.prems(1) [unfolded inflate_loop.simps]
  from run obtain s1 where s1: "fill_input s = Inr s1"
    by (cases "fill_input s") auto
  obtain r s2 where s2: "print_inflate zl s1 = (r, s2)" by (cases "print_inflate zl s1")
  have i1: "buf_inv len s1"
    using Suc.prems(2) fill_input_keeps [OF s1] by (simp add: buf_inv_def)
  have k: "skipping s2 = skipping s" "numToSkip s2 = numToSkip s" "buf_inv len s2"
    using print_inflate_keeps [OF s2] fill_input_keeps [OF s1] i1 by simp_all
  show ?case
  proof (cases "r \<noteq> Z_NEED_DICT \<and> r \<noteq> Z_MEM_ERROR \<and> r \<noteq> Z_DATA_ERROR \<and> r \<noteq> Z_STREAM_END
                 \<and> avail_out s2 \<noteq> 0")
    case True
    then have "inflate_loop zl n s2 = Some (Inr s')"
      using run by (simp add: s1 s2)
    from Suc.IH [OF this k(3)] k show ?thesis by simp
  next
    case False
    then have "s' = s2"
      using run by (auto simp: s1 s2 split: if_splits)
    then show ?thesis using k by simp
  qed
qed

lemma next_target_inv:
  assumes "buf_inv len s" and "skipping s"
  shows "buf_inv len (next_target len s)"
  using assms by (auto simp: next_target_def buf_inv_def Let_def)

lemma skip_loop_inv:
  assumes "skip_loop zl len n s = Some (Inr s')" and "buf_inv len s" and "skipping s"
  shows "buf_inv len s' \<and> \<not> skipping s'"
  using assms
proof (induction n arbitrary: s)
  case 0
  then show ?case by (simp add: skip_loop.simps)
next
  case (Suc n)
  let ?t = "next_target len s"
  note run = Suc.prems(1) [unfolded skip_loop.simps]
  from run obtain s1 where s1: "inflate_loop zl (Suc n) ?t = Some (Inr s1)"
    by (auto split: option.splits sum.splits)
  have i1: "buf_inv len s1"
    using inflate_loop_keeps [OF s1 next_target_inv [OF Suc.prems(2,3)]] by simp
  show ?case
  proof (cases "skipping s1")
    case True
    then have "skip_loop zl len n s1 = Some (Inr s')"
      using run by (simp add: s1)
    from Suc.IH [OF this i1 True] show ?thesis .
  next
    case False
    then have "s' = s1" using run by (simp add: s1)
    then show ?thesis using i1 False by simp
  qed
qed

lemma print_call:
  assumes "print zl fuel f (lo, ap) = Some (Inr c)"
  shows "\<exists>buf. c = (lo_line lo, lo_offset lo, buf, lo_length lo - 1)
             \<and> length buf \<le> uInt (lo_length lo)"
proof -
  from assms obtain s0 s where
    run: "skip_loop zl (lo_length lo) fuel s0 = Some (Inr s)"
    and s0: "skipping s0" "lineBuf s0 = []"
    and c: "c = (lo_line lo, lo_offset lo, lineBuf s, lo_length lo - 1)"
    by (auto simp: print_def Let_def split: sum.splits option.splits prod.splits)
  have "buf_inv (lo_length lo) s0" using s0 by (simp add: buf_inv_def)
  from skip_loop_inv [OF run this s0(1)]
  have "length (lineBuf s) \<le> uInt (lo_length lo)" by (auto simp: buf_inv_def split: if_splits)
  then show ?thesis using c by blast
qed

text \<open>
  Whatever zlib does: a call that the sink receives from \<^verbatim>\<open>getLine\<close> has the line number
  asked for, the \<^verbatim>\<open>offset\<close> of its row, no more bytes than the buffer holds, and the \<^verbatim>\<open>length\<close>
  of the row minus one; there is at most one call.
\<close>

lemma getLine_call_shape:
  assumes "getLine zl fuel db f n sink = Some (Inr sink')"
  shows "sink' = sink
       \<or> (\<exists>lo ap buf. lineQuery db (to_int64 n) = Some (lo, ap)
            \<and> lo \<in> set (LineOffsets db) \<and> lo_line lo = to_int64 n
            \<and> length buf \<le> uInt (lo_length lo)
            \<and> sink' = sink @ [(to_int64 n, lo_offset lo, buf, lo_length lo - 1)])"
proof (cases "lineQuery db (to_int64 n)")
  case None
  then show ?thesis using assms by (simp add: getLine_def)
next
  case (Some q)
  obtain lo ap where q: "q = (lo, ap)" by (cases q)
  from assms obtain c where c: "print zl fuel f (lo, ap) = Some (Inr c)" and s: "sink' = sink @ [c]"
    by (auto simp: getLine_def Some q split: option.splits sum.splits)
  from print_call [OF c] obtain buf where
    "c = (lo_line lo, lo_offset lo, buf, lo_length lo - 1)" "length buf \<le> uInt (lo_length lo)"
    by blast
  moreover have "lo \<in> set (LineOffsets db)" "lo_line lo = to_int64 n"
    using lineQuery_Some [of db "to_int64 n" lo ap] Some q by simp_all
  ultimately show ?thesis using s Some q by auto
qed

lemma length_zero_window: "length zero_window = 32768"
  by (simp add: zero_window_def WindowSize_def)

lemma to_int64_small: "to_int64 2 = 2" "to_int64 3 = 3" "to_int64 7 = 7"
  by (simp_all add: to_int64_def)

theorem getLine_missing_line_witness:
  "lineQuery abc_db (to_int64 7) = None
   \<and> getLine toy_zlib 0 abc_db abc_file 7 [] = Some (Inr [])"
  using getLine_missing_line [of abc_db 7 toy_zlib 0 abc_file "[]"]
  by (simp add: to_int64_small lineQuery_def abc_db_def covers_def)

section \<open>Properties of the checkpoint policy\<close>

lemma rewind_window_keeps:
  assumes "rewind_window s = Inr s1"
  shows "logged s1 = logged s" "last' s1 = last' s" "indexEvery s1 = indexEvery s"
    "totalOut s1 = totalOut s" "totalIn s1 = totalIn s"
  using assms
  by (auto simp: rewind_window_def Let_def split: if_splits sum.splits prod.splits)

lemma build_inflate_keeps:
  "logged (build_inflate zl s) = logged s" "last' (build_inflate zl s) = last' s"
  "indexEvery (build_inflate zl s) = indexEvery s"
  by (simp_all add: build_inflate_def Let_def)

lemma checkpoint_logged:
  assumes "checkpoint zl s = Inr s'"
  shows "logged s' = (if endOfBlock s \<and> \<not> lastBlockInStream s \<and> needsIndex s
                      then logged s @ [(totalOut s, totalIn s)] else logged s)"
    and "totalOut s' = totalOut s" and "totalIn s' = totalIn s" and "data_type s' = data_type s"
    and "ret s' = ret s"
  using assms
  by (auto simp: checkpoint_def Let_def flush_row_def split: if_splits sum.splits)

text \<open>
  Claim C3, as amended. A turn of the inner loop that does not throw logs exactly one new
  checkpoint when \<^verbatim>\<open>inflate\<close> did not return \<^verbatim>\<open>Z_STREAM_END\<close>, the step ended on a block
  boundary, the block is not the last one, and either strictly more than \<^verbatim>\<open>indexEvery\<close> bytes
  were produced since the last checkpoint or no byte has been produced yet
  (\<^verbatim>\<open>totalOut == 0\<close>); otherwise it logs none.
\<close>

theorem checkpoint_policy:
  assumes "inflate_step zl s = Inr s'"
  shows "logged s' = (if checkpoint_due s s' then logged s @ [(totalOut s', totalIn s')] else logged s)"
proof -
  from assms obtain s1 where s1: "rewind_window s = Inr s1"
    by (auto simp: inflate_step_def split: sum.splits)
  define s2 where "s2 = build_inflate zl s1"
  have k: "logged s2 = logged s" "last' s2 = last' s" "indexEvery s2 = indexEvery s"
    using rewind_window_keeps [OF s1] by (simp_all add: s2_def build_inflate_keeps)
  show ?thesis
  proof (cases "ret s2 = Z_STREAM_END")
    case True
    then have "s' = s2"
      using assms by (auto simp: inflate_step_def s1 s2_def Let_def split: if_splits)
    then show ?thesis using True k by (simp add: checkpoint_due_def)
  next
    case False
    then have c: "checkpoint zl s2 = Inr s'"
      using assms by (auto simp: inflate_step_def s1 s2_def Let_def split: if_splits)
    have "endOfBlock s' = endOfBlock s2" "lastBlockInStream s' = lastBlockInStream s2"
      using checkpoint_logged(4) [OF c] by (simp_all add: endOfBlock_def lastBlockInStream_def)
    then show ?thesis
      using checkpoint_logged [OF c] False k
      by (simp add: checkpoint_due_def needsIndex_def)
  qed
qed

lemmas toy_step_defs =
  inflate_step_def first_chunk_def after_header_def after_head_def after_block_def
  start_build_def rewind_window_def WindowSize_def
  build_inflate_def toy_zlib_def toy_inflate_def abc_file_def avail_in_def Let_def
  Z_NEED_DICT_def Z_MEM_ERROR_def Z_DATA_ERROR_def Z_STREAM_END_def checkpoint_def
  endOfBlock_def lastBlockInStream_def needsIndex_def makeWindow_def window_snapshot_def
  length_zero_window X_def Z_OK_def DefaultIndexEvery_def numeral_3_eq_3 [symmetric]

lemma first_step: "inflate_step toy_zlib first_chunk = Inr after_header"
  by (simp add: toy_step_defs)

lemma second_step:
  "inflate_step toy_zlib (after_header\<lparr>indexEvery := 3\<rparr>) = Inr (after_head\<lparr>indexEvery := 3\<rparr>)"
  by (simp add: toy_step_defs)

lemma third_step:
  "inflate_step toy_zlib (after_head\<lparr>indexEvery := 3\<rparr>) = Inr (after_block\<lparr>indexEvery := 3\<rparr>)"
  by (simp add: toy_step_defs)

theorem checkpoint_policy_witness:
  "inflate_step toy_zlib first_chunk = Inr after_header
   \<and> checkpoint_due first_chunk after_header
   \<and> logged after_header = logged first_chunk @ [(totalOut after_header, totalIn after_header)]
   \<and> inflate_step toy_zlib (after_head\<lparr>indexEvery := 3\<rparr>) = Inr (after_block\<lparr>indexEvery := 3\<rparr>)
   \<and> \<not> checkpoint_due (after_head\<lparr>indexEvery := 3\<rparr>) (after_block\<lparr>indexEvery := 3\<rparr>)
   \<and> logged (after_block\<lparr>indexEvery := 3\<rparr>) = logged (after_head\<lparr>indexEvery := 3\<rparr>)"
  using checkpoint_policy [OF first_step] checkpoint_policy [OF third_step]
  by (simp add: first_step third_step checkpoint_due_def toy_step_defs)

text \<open>
  The policy in the words of the specification differs from the source twice: the
  checkpoint after the header is made at \<^verbatim>\<open>totalOut == 0\<close>, where the specification asks for a
  cursor past zero; and with \<^verbatim>\<open>indexEvery = 3\<close> the block boundary at three bytes is not a
  checkpoint, where the specification asks for at least three bytes.
\<close>

theorem checkpoint_policy_counterexample:
  "inflate_step toy_zlib first_chunk = Inr after_header
   \<and> logged first_chunk = [] \<and> logged after_header = [(0, 1)]
   \<and> \<not> spec_checkpoint_due first_chunk after_header
   \<and> inflate_step toy_zlib (first_chunk\<lparr>indexEvery := 3\<rparr>) = Inr (after_header\<lparr>indexEvery := 3\<rparr>)
   \<and> inflate_step toy_zlib (after_header\<lparr>indexEvery := 3\<rparr>) = Inr (after_head\<lparr>indexEvery := 3\<rparr>)
   \<and> inflate_step toy_zlib (after_head\<lparr>indexEvery := 3\<rparr>) = Inr (after_block\<lparr>indexEvery := 3\<rparr>)
   \<and> logged (after_block\<lparr>indexEvery := 3\<rparr>) = logged (after_head\<lparr>indexEvery := 3\<rparr>)
   \<and> spec_checkpoint_due (after_head\<lparr>indexEvery := 3\<rparr>) (after_block\<lparr>indexEvery := 3\<rparr>)"
  by (simp add: spec_checkpoint_due_def toy_step_defs)

section \<open>Properties of the access points\<close>

lemma chain_append:
  "chain a (rs @ [r]) =
     (case chain a rs of
        None \<Rightarrow> None
      | Some b \<Rightarrow> chain b [r])"
  by (induction rs arbitrary: a) (auto split: option.splits)

lemma rewind_window_ap:
  assumes "rewind_window s = Inr s1"
  shows "addIndex s1 = addIndex s" "tables s1 = tables s" "state s1 = state s" "ret s1 = ret s"
    "next_in s1 = next_in s"
  using assms
  by (auto simp: rewind_window_def Let_def split: if_splits sum.splits prod.splits)

lemma build_inflate_ap:
  "addIndex (build_inflate zl s) = addIndex s" "tables (build_inflate zl s) = tables s"
  by (simp_all add: build_inflate_def Let_def)

lemma build_inflate_totalOut:
  "totalOut (build_inflate zl s)
     = totalOut s + length (take (avail_out s) (produced (inflate zl (state s) (next_in s) (avail_out s) Z_BLOCK)))"
  by (simp add: build_inflate_def Let_def)

lemma build_inflate_state:
  "state (build_inflate zl s) = new_state (inflate zl (state s) (next_in s) (avail_out s) Z_BLOCK)"
  "data_type (build_inflate zl s) = new_data_type (inflate zl (state s) (next_in s) (avail_out s) Z_BLOCK)"
  by (simp_all add: build_inflate_def Let_def)

lemma checkpoint_cases:
  assumes "checkpoint zl s = Inr s'"
  obtains (skip) "\<not> (endOfBlock s \<and> \<not> lastBlockInStream s \<and> needsIndex s)" and "s' = s"
  | (emit) apWindow where "endOfBlock s" and "\<not> lastBlockInStream s" and "needsIndex s"
      and "makeWindow zl (compressBound zl WindowSize) (window (log_checkpoint s))
             (avail_out (log_checkpoint s)) = Inr apWindow"
      and "s' = bind_checkpoint (log_checkpoint s) apWindow"
proof (cases "endOfBlock s \<and> \<not> lastBlockInStream s \<and> needsIndex s")
  case False
  then have "s' = s" using assms by (auto simp: checkpoint_def)
  with False show ?thesis by (rule skip)
next
  case True
  then have "(case makeWindow zl (compressBound zl WindowSize) (window (log_checkpoint s))
             (avail_out (log_checkpoint s)) of
               Inl e \<Rightarrow> Inl e
             | Inr apWindow \<Rightarrow> Inr (bind_checkpoint (log_checkpoint s) apWindow)) = Inr s'"
    using assms unfolding checkpoint_def log_checkpoint_def bind_checkpoint_def Let_def
    by simp
  then obtain apWindow where
    "makeWindow zl (compressBound zl WindowSize) (window (log_checkpoint s))
             (avail_out (log_checkpoint s)) = Inr apWindow"
    "s' = bind_checkpoint (log_checkpoint s) apWindow"
    by (auto split: sum.splits)
  with True show ?thesis by (auto intro: emit)
qed

lemma checkpoint_ap:
  assumes "checkpoint zl s = Inr s'" and "ap_inv hdr s"
    and "uncompressedOffset (addIndex s) = None \<longrightarrow>
           hdr (state s) \<or> (endOfBlock s \<and> \<not> lastBlockInStream s)"
  shows "ap_inv hdr s'"
  using assms(1)
proof (cases rule: checkpoint_cases)
  case skip
  have "uncompressedOffset (addIndex s) = None \<longrightarrow> hdr (state s)"
  proof
    assume n: "uncompressedOffset (addIndex s) = None"
    then have "totalOut s = 0" using assms(2) by (simp add: ap_inv_def)
    then have "needsIndex s" by (simp add: needsIndex_def)
    then show "hdr (state s)" using skip(1) assms(3) n by blast
  qed
  then show ?thesis using assms(2) skip(2) by (auto simp: ap_inv_def split: option.splits)
next
  case (emit apWindow)
  show ?thesis
  proof (cases "totalOut s = 0")
    case True
    then have l: "log_checkpoint s = s\<lparr>logged := logged s @ [(totalOut s, totalIn s)]\<rparr>"
      by (simp add: log_checkpoint_def Let_def)
    have "last' s = 0" using assms(2) True by (simp add: ap_inv_def)
    moreover have "AccessPoints (tables s) = [] \<or> chain 0 (AccessPoints (tables s)) = Some 0"
      using assms(2) \<open>last' s = 0\<close> by (auto simp: ap_inv_def split: option.splits)
    ultimately show ?thesis
      using assms(2) True by (auto simp: ap_inv_def emit(5) l bind_checkpoint_def)
  next
    case False
    then obtain u where u: "uncompressedOffset (addIndex s) = Some u"
      using assms(2) by (cases "uncompressedOffset (addIndex s)") (auto simp: ap_inv_def)
    then have ul: "u = int (last' s)"
      and ch: "chain 0 (AccessPoints (tables s)) = Some (int (last' s))"
      using assms(2) by (simp_all add: ap_inv_def)
    have gt: "last' s < totalOut s"
      using emit(3) False by (simp add: needsIndex_def)
    define row where "row = (addIndex s)\<lparr>uncompressedEndOffset := Some (int (totalOut s) - 1)\<rparr>"
    have l: "log_checkpoint s = s\<lparr>logged := logged s @ [(totalOut s, totalIn s)], addIndex := row,
                tables := (tables s)\<lparr>AccessPoints := AccessPoints (tables s) @ [row]\<rparr>\<rparr>"
      using False by (simp add: log_checkpoint_def flush_row_def row_def Let_def)
    have "chain (int (last' s)) [row] = Some (int (totalOut s))"
      by (simp add: row_def u ul)
    then have "chain 0 (AccessPoints (tables s) @ [row]) = Some (int (totalOut s))"
      by (simp add: chain_append ch)
    moreover have "nonempty_range row"
      using gt by (simp add: nonempty_range_def row_def u ul)
    ultimately show ?thesis
      using assms(2) by (simp add: ap_inv_def emit(5) l bind_checkpoint_def)
  qed
qed

lemma inflate_step_ap:
  assumes "inflate_step zl s = Inr s'" and "ap_inv hdr s" and "ret s \<noteq> Z_STREAM_END"
    and "stops_after_header zl hdr"
  shows "ap_inv hdr s'"
proof -
  from assms(1) obtain s1 where s1: "rewind_window s = Inr s1"
    by (auto simp: inflate_step_def split: sum.splits)
  define s2 where "s2 = build_inflate zl s1"
  define r where "r = inflate zl (state s1) (next_in s1) (avail_out s1) Z_BLOCK"
  note k1 = rewind_window_ap [OF s1] rewind_window_keeps [OF s1]
  have out: "totalOut s2 = totalOut s + length (take (avail_out s1) (produced r))"
    by (simp add: s2_def build_inflate_totalOut r_def k1)
  have keep: "addIndex s2 = addIndex s" "tables s2 = tables s" "last' s2 = last' s"
    by (simp_all add: s2_def build_inflate_ap build_inflate_keeps k1)
  have st: "state s2 = new_state r" "data_type s2 = new_data_type r"
    by (simp_all add: s2_def build_inflate_state r_def)
  have hdr_step: "produced r = [] \<and> (hdr (state s2) \<or> (endOfBlock s2 \<and> \<not> lastBlockInStream s2))"
    if "uncompressedOffset (addIndex s) = None"
  proof -
    have "hdr (state s1)" using that assms(2,3) by (simp add: ap_inv_def k1)
    then show ?thesis
      using assms(4) unfolding stops_after_header_def
      by (auto simp: Let_def st endOfBlock_def lastBlockInStream_def r_def)
  qed
  show ?thesis
  proof (cases "ret s2 = Z_STREAM_END")
    case True
    then have "s' = s2"
      using assms(1) by (auto simp: inflate_step_def s1 s2_def Let_def split: if_splits)
    then show ?thesis
      using assms(2) hdr_step out keep True
      by (auto simp: ap_inv_def split: option.splits)
  next
    case False
    then have c: "checkpoint zl s2 = Inr s'"
      using assms(1) by (auto simp: inflate_step_def s1 s2_def Let_def split: if_splits)
    text \<open>For the checkpoint the header may just have ended: the invariant with \<open>hdr\<close> or the
      flags in place of \<open>hdr\<close>.\<close>
    define hdr' where "hdr' = (\<lambda>z. hdr z \<or> (z = state s2 \<and> endOfBlock s2 \<and> \<not> lastBlockInStream s2))"
    have "ap_inv hdr' s2"
      using assms(2) hdr_step out keep False
      by (auto simp: ap_inv_def hdr'_def split: option.splits)
    show ?thesis
      using c
    proof (cases rule: checkpoint_cases)
      case skip
      have "uncompressedOffset (addIndex s2) = None \<longrightarrow> hdr (state s2)"
      proof
        assume n: "uncompressedOffset (addIndex s2) = None"
        then have "totalOut s2 = 0" using \<open>ap_inv hdr' s2\<close> by (simp add: ap_inv_def)
        then have "needsIndex s2" by (simp add: needsIndex_def)
        then show "hdr (state s2)" using skip(1) hdr_step n keep by auto
      qed
      then show ?thesis
        using \<open>ap_inv hdr' s2\<close> skip(2) by (auto simp: ap_inv_def split: option.splits)
    next
      case (emit apWindow)
      have "ap_inv hdr' s'"
        using c \<open>ap_inv hdr' s2\<close>
        by (rule checkpoint_ap) (use hdr_step keep in \<open>auto simp: hdr'_def\<close>)
      moreover have "uncompressedOffset (addIndex s') \<noteq> None"
        by (simp add: emit(5) bind_checkpoint_def)
      ultimately show ?thesis by (auto simp: ap_inv_def split: option.splits)
    qed
  qed
qed

lemma inflate_steps_invariant:
  assumes "inflate_steps zl n s = Some (Inr s')" and "P s" and "ret s \<noteq> Z_STREAM_END"
    and step: "\<And>s s'. P s \<Longrightarrow> ret s \<noteq> Z_STREAM_END \<Longrightarrow> inflate_step zl s = Inr s' \<Longrightarrow> P s'"
  shows "P s'"
  using assms(1-3)
proof (induction n arbitrary: s)
  case 0
  then show ?case by (simp add: inflate_steps.simps)
next
  case (Suc n)
  note run = Suc.prems(1) [unfolded inflate_steps.simps]
  from run obtain s1 where s1: "inflate_step zl s = Inr s1"
    by (cases "inflate_step zl s") auto
  have p1: "P s1" using step [OF Suc.prems(2,3) s1] .
  show ?case
  proof (cases "ret s1 \<noteq> Z_STREAM_END \<and> avail_in s1 \<noteq> 0")
    case True
    then have "inflate_steps zl n s1 = Some (Inr s')" using run by (simp add: s1)
    from Suc.IH [OF this p1] True show ?thesis by simp
  next
    case False
    then have "s' = s1" using run by (auto simp: s1 split: if_splits)
    then show ?thesis using p1 by simp
  qed
qed

lemma read_chunk_keeps:
  assumes "read_chunk s = Inr s1"
  obtains chunk f where "s1 = s\<lparr>next_in := chunk, from_file := f\<rparr>"
proof -
  obtain chunk f where "fread (from_file s) ChunkSize = (chunk, f)"
    by (cases "fread (from_file s) ChunkSize")
  then have "s1 = s\<lparr>next_in := chunk, from_file := f\<rparr>"
    using assms by (simp add: read_chunk_def split: if_splits)
  then show ?thesis by (rule that)
qed

lemma read_chunks_invariant:
  assumes "read_chunks zl n s = Some (Inr s')" and "P s" and "ret s \<noteq> Z_STREAM_END"
    and step: "\<And>s s'. P s \<Longrightarrow> ret s \<noteq> Z_STREAM_END \<Longrightarrow> inflate_step zl s = Inr s' \<Longrightarrow> P s'"
    and chunk: "\<And>s s'. P s \<Longrightarrow> read_chunk s = Inr s' \<Longrightarrow> P s'"
  shows "P s' \<and> ret s' = Z_STREAM_END"
  using assms(1-3)
proof (induction n arbitrary: s)
  case 0
  then show ?case by (simp add: read_chunks.simps)
next
  case (Suc n)
  note run = Suc.prems(1) [unfolded read_chunks.simps]
  from run obtain s1 where s1: "read_chunk s = Inr s1"
    by (cases "read_chunk s") auto
  from run obtain s2 where s2: "inflate_steps zl (Suc n) s1 = Some (Inr s2)"
    by (auto simp: s1 split: option.splits sum.splits)
  have r1: "ret s1 = ret s"
    using s1 by (rule read_chunk_keeps) simp
  have p1: "P s1" by (rule chunk [OF Suc.prems(2) s1])
  have p2: "P s2"
  proof (rule inflate_steps_invariant [where P = P, OF s2 p1])
    show "ret s1 \<noteq> Z_STREAM_END" using Suc.prems(3) r1 by simp
  next
    fix a b
    assume "P a" and "ret a \<noteq> Z_STREAM_END" and "inflate_step zl a = Inr b"
    then show "P b" by (rule step)
  qed
  show ?case
  proof (cases "ret s2 \<noteq> Z_STREAM_END")
    case True
    then have "read_chunks zl n s2 = Some (Inr s')" using run by (simp add: s1 s2)
    from Suc.IH [OF this p2 True] show ?thesis .
  next
    case False
    then have "s' = s2" using run by (simp add: s1 s2)
    then show ?thesis using p2 False by simp
  qed
qed

lemma read_chunk_ap:
  assumes "ap_inv hdr s" and "read_chunk s = Inr s1"
  shows "ap_inv hdr s1"
  using assms(2)
proof (rule read_chunk_keeps)
  fix chunk f
  assume "s1 = s\<lparr>next_in := chunk, from_file := f\<rparr>"
  then show ?thesis using assms(1) by (simp add: ap_inv_def split: option.splits)
qed

lemma start_build_ap:
  assumes "stops_after_header zl hdr" and "inflateInit2 zl ZlibOrGzip = (r, z)"
  shows "ap_inv hdr (start_build z skip every hs f stack)"
    and "ret (start_build z skip every hs f stack) \<noteq> Z_STREAM_END"
  using assms by (simp_all add: ap_inv_def start_build_def stops_after_header_def Z_STREAM_END_def)

lemma build_cases:
  assumes "build zl fuel fstat skip every hs f stack = Some (Inr s')"
  obtains r z s where "inflateInit2 zl ZlibOrGzip = (r, z)"
    and "read_chunks zl fuel (start_build z skip every hs f stack) = Some (Inr s)"
    and "finish_build s = Inr s'"
proof -
  obtain r z where i: "inflateInit2 zl ZlibOrGzip = (r, z)"
    by (cases "inflateInit2 zl ZlibOrGzip")
  from assms i obtain s where
    "read_chunks zl fuel (start_build z skip every hs f stack) = Some (Inr s)"
    "finish_build s = Inr s'"
    by (auto simp: build_def split: if_splits sum.splits option.splits)
  with i show ?thesis by (rule that)
qed

lemma finish_build_tables:
  assumes "finish_build s = Inr s'"
  shows "AccessPoints (tables s') = AccessPoints (tables (if totalOut s \<noteq> 0 then flush_row s else s))"
    and "totalOut s' = totalOut s" and "uncompressed s' = uncompressed s"
  using assms
  by (auto simp: finish_build_def Let_def flush_row_def split: sum.splits prod.splits if_splits)

lemma chain_first:
  assumes "chain a aps = Some b" and "aps \<noteq> []"
  shows "uncompressedOffset (hd aps) = Some a"
  using assms by (cases aps) (auto split: option.splits if_splits)

lemma chain_last:
  assumes "chain a aps = Some b" and "aps \<noteq> []"
  shows "uncompressedEndOffset (last aps) = Some (b - 1)"
  using assms
proof (induction aps arbitrary: a)
  case Nil
  then show ?case by simp
next
  case (Cons r aps)
  then show ?case by (cases aps) (auto split: option.splits if_splits)
qed

lemma chain_adjacent:
  assumes "chain a aps = Some b" and "Suc i < length aps"
  shows "\<exists>e. uncompressedEndOffset (aps ! i) = Some e
           \<and> uncompressedOffset (aps ! Suc i) = Some (e + 1)"
  using assms
proof (induction aps arbitrary: a i)
  case Nil
  then show ?case by simp
next
  case (Cons r aps)
  from Cons.prems(1) obtain e where e: "uncompressedEndOffset r = Some e"
    and rest: "chain (e + 1) aps = Some b"
    by (auto split: option.splits if_splits)
  show ?case
  proof (cases i)
    case 0
    then have "aps \<noteq> []" using Cons.prems(2) by auto
    from chain_first [OF rest this] show ?thesis
      using 0 e \<open>aps \<noteq> []\<close> by (simp add: hd_conv_nth)
  next
    case (Suc j)
    then have "Suc j < length aps" using Cons.prems(2) by simp
    from Cons.IH [OF rest this] show ?thesis by (simp add: Suc)
  qed
qed

lemma inflate_steps_pos:
  "0 < n \<Longrightarrow> inflate_steps zl n s =
     (case inflate_step zl s of
        Inl e \<Rightarrow> Some (Inl e)
      | Inr s' \<Rightarrow>
          if ret s' = Z_STREAM_END then Some (Inr s')
          else if avail_in s' \<noteq> 0 then inflate_steps zl (n - 1) s'
          else Some (Inr s'))"
proof -
  assume "0 < n"
  then obtain m where m: "n = Suc m" by (cases n) auto
  show ?thesis by (simp only: m inflate_steps.simps diff_Suc_1)
qed

lemma read_chunks_pos:
  "0 < n \<Longrightarrow> read_chunks zl n s =
     (case read_chunk s of
        Inl e \<Rightarrow> Some (Inl e)
      | Inr s1 \<Rightarrow>
          (case inflate_steps zl n s1 of
             None \<Rightarrow> None
           | Some (Inl e) \<Rightarrow> Some (Inl e)
           | Some (Inr s2) \<Rightarrow>
               if ret s2 \<noteq> Z_STREAM_END then read_chunks zl (n - 1) s2 else Some (Inr s2)))"
proof -
  assume "0 < n"
  then obtain m where m: "n = Suc m" by (cases n) auto
  show ?thesis by (simp only: m read_chunks.simps diff_Suc_1)
qed

lemmas toy_build_defs =
  build_def read_chunks_pos inflate_steps_pos read_chunk_def finish_build_def
  fread_def ferror_def ChunkSize_def ZlibOrGzip_def Raw_def flush_row_def
  finder_add_def finder_line_def Builder_onLine_def new_finder_def addLine_rows_def
  abc_db_def abc_built_def toy_step_defs

lemma toy_build:
  "build toy_zlib 9
     (Some \<lparr>st_size = 10, st_mtime = 5\<rparr>) 0 1 [] abc_file zero_window
   = Some (Inr abc_built)"
  by (simp add: toy_build_defs)
text \<open>
  Claim C2. For a build that completes and has produced output, with zlib stopping after
  the header as \<^verbatim>\<open>Z_BLOCK\<close> promises: the rows of \<^verbatim>\<open>AccessPoints\<close>, in the order of their
  insertion, begin with \<^verbatim>\<open>uncompressedOffset = 0\<close>; each next row begins one after the
  \<^verbatim>\<open>uncompressedEndOffset\<close> of the row before; the last row ends at \<^verbatim>\<open>totalOut - 1\<close>; and every
  row but the last covers at least one byte, so the order of insertion is the order by
  \<^verbatim>\<open>uncompressedOffset\<close>.
\<close>

theorem access_points_partition:
  assumes "build zl fuel fstat skip every hs f stack = Some (Inr s)"
    and "stops_after_header zl hdr"
    and "totalOut s \<noteq> 0"
  shows "AccessPoints (tables s) \<noteq> []
       \<and> uncompressedOffset (hd (AccessPoints (tables s))) = Some 0
       \<and> (\<forall>i. Suc i < length (AccessPoints (tables s)) \<longrightarrow>
             (\<exists>e. uncompressedEndOffset (AccessPoints (tables s) ! i) = Some e
                \<and> uncompressedOffset (AccessPoints (tables s) ! Suc i) = Some (e + 1)))
       \<and> uncompressedEndOffset (last (AccessPoints (tables s))) = Some (int (totalOut s) - 1)
       \<and> list_all nonempty_range (butlast (AccessPoints (tables s)))"
proof -
  from assms(1) obtain r z s0 where
    init: "inflateInit2 zl ZlibOrGzip = (r, z)"
    and run: "read_chunks zl fuel (start_build z skip every hs f stack) = Some (Inr s0)"
    and fin: "finish_build s0 = Inr s"
    by (rule build_cases)
  have inv: "ap_inv hdr s0"
  proof -
    have "ap_inv hdr s0 \<and> ret s0 = Z_STREAM_END"
    proof (rule read_chunks_invariant [where P = "ap_inv hdr", OF run])
      show "ap_inv hdr (start_build z skip every hs f stack)"
        and "ret (start_build z skip every hs f stack) \<noteq> Z_STREAM_END"
        using start_build_ap [OF assms(2) init] by simp_all
    next
      fix a b
      assume "ap_inv hdr a" and "ret a \<noteq> Z_STREAM_END" and "inflate_step zl a = Inr b"
      then show "ap_inv hdr b" using assms(2) by (intro inflate_step_ap [of zl a b hdr])
    next
      fix a b
      assume "ap_inv hdr a" and "read_chunk a = Inr b"
      then show "ap_inv hdr b" by (rule read_chunk_ap)
    qed
    then show ?thesis ..
  qed
  have t: "totalOut s0 = totalOut s" using finish_build_tables(2) [OF fin] by simp
  then have nz: "totalOut s0 \<noteq> 0" using assms(3) by simp
  then obtain u where u: "uncompressedOffset (addIndex s0) = Some u"
    using inv by (cases "uncompressedOffset (addIndex s0)") (auto simp: ap_inv_def)
  then have ul: "u = int (last' s0)"
    and ch: "chain 0 (AccessPoints (tables s0)) = Some (int (last' s0))"
    and ne: "list_all nonempty_range (AccessPoints (tables s0))"
    using inv by (simp_all add: ap_inv_def)
  define row where "row = (addIndex s0)\<lparr>uncompressedEndOffset := Some (int (totalOut s0) - 1)\<rparr>"
  have aps: "AccessPoints (tables s) = AccessPoints (tables s0) @ [row]"
    using finish_build_tables(1) [OF fin] nz by (simp add: flush_row_def row_def Let_def)
  have "chain (int (last' s0)) [row] = Some (int (totalOut s0))"
    by (simp add: row_def u ul)
  then have full: "chain 0 (AccessPoints (tables s)) = Some (int (totalOut s))"
    by (simp add: aps chain_append ch t)
  have nonempty: "AccessPoints (tables s) \<noteq> []" by (simp add: aps)
  show ?thesis
    using nonempty chain_first [OF full nonempty] chain_last [OF full nonempty]
      chain_adjacent [OF full] ne
    by (simp add: aps)
qed

lemma toy_header: "stops_after_header toy_zlib (\<lambda>z. z = (True, Header))"
  by (simp add: stops_after_header_def toy_zlib_def toy_inflate_def ZlibOrGzip_def Raw_def
        Let_def)

theorem access_points_partition_witness:
  "build toy_zlib 9 (Some \<lparr>st_size = 10, st_mtime = 5\<rparr>) 0 1 [] abc_file zero_window
     = Some (Inr abc_built)
   \<and> stops_after_header toy_zlib (\<lambda>z. z = (True, Header))
   \<and> totalOut abc_built = 6
   \<and> map uncompressedOffset (AccessPoints (tables abc_built)) = [Some 0, Some 3]
   \<and> map uncompressedEndOffset (AccessPoints (tables abc_built)) = [Some 2, Some 5]"
proof -
  have "totalOut abc_built = 6"
    and "map uncompressedOffset (AccessPoints (tables abc_built)) = [Some 0, Some 3]"
    and "map uncompressedEndOffset (AccessPoints (tables abc_built)) = [Some 2, Some 5]"
    by (simp_all add: abc_built_def abc_db_def)
  then show ?thesis
    using access_points_partition [OF toy_build toy_header] toy_build toy_header
    by simp
qed

section \<open>Properties of the window and of the stored snapshots\<close>

lemma length_snapshot:
  assumes "length stack = WindowSize" and "n \<le> length U"
  shows "length (snapshot stack U n) = WindowSize"
  using assms by (auto simp: snapshot_def)

lemma snapshot_append:
  assumes "n \<le> length U"
  shows "snapshot stack (U @ w) n = snapshot stack U n"
  using assms by (simp add: snapshot_def)

lemma drop_take_drop:
  assumes "a \<le> b"
  shows "drop a (take b xs) @ drop b xs = drop a xs"
proof -
  have "drop a xs = drop a (take b xs @ drop b xs)" by simp
  also have "\<dots> = drop a (take b xs) @ drop (a - length (take b xs)) (drop b xs)"
    by (rule drop_append)
  also have "drop (a - length (take b xs)) (drop b xs) = drop b xs"
    using assms by (cases "b \<le> length xs") (simp_all add: min_def)
  finally show ?thesis by simp
qed

lemma snapshot_step:
  assumes "length stack = WindowSize" and "p \<le> WindowSize" and "p \<le> n" and "n = length U"
    and "WindowSize dvd (n - p)"
  shows "drop p (snapshot stack U (n - p)) @ drop (n - p) U = snapshot stack U n"
proof (cases "n - p = 0")
  case True
  then have "n = p" using assms(3) by simp
  then show ?thesis using assms by (simp add: snapshot_def)
next
  case False
  then have ge: "WindowSize \<le> n - p" using assms(5) by (auto dest: dvd_imp_le)
  have a: "drop (n - p) stack = []" "drop n stack = []" using ge assms(1) by simp_all
  have snap: "snapshot stack U (n - p) = drop (n - p - WindowSize) (take (n - p) U)"
    unfolding snapshot_def a(1) by simp
  have "take n U = U" using assms(4) by simp
  then have snapn: "snapshot stack U n = drop (n - WindowSize) U"
    unfolding snapshot_def a(2) by simp
  have e: "p + (n - p - WindowSize) = n - WindowSize" using ge assms(3) by simp
  have "drop p (snapshot stack U (n - p)) = drop (n - WindowSize) (take (n - p) U)"
    unfolding snap drop_drop e ..
  moreover have "drop (n - WindowSize) (take (n - p) U) @ drop (n - p) U = drop (n - WindowSize) U"
    using assms(2) by (intro drop_take_drop) simp
  ultimately show ?thesis by (simp only: snapn)
qed

lemma finder_bytes_append:
  "finder_bytes skip fd hs (a @ b) =
     (case finder_bytes skip fd hs a of
        Inl e \<Rightarrow> Inl e
      | Inr (fd', hs') \<Rightarrow> finder_bytes skip fd' hs' b)"
  by (induction a arbitrary: fd hs) (auto split: sum.splits)

lemma win_inv_first:
  assumes "win_inv stack skip hs0 s" and "first s"
  shows "avail_out s = 0" and "uncompressed s = []" and "window s = stack"
    and "finder s = new_finder" and "indexers s = hs0"
  using assms by (simp_all add: win_inv_def)

lemma win_inv_basic:
  assumes "win_inv stack skip hs0 s"
  shows "length (window s) = WindowSize" and "avail_out s \<le> WindowSize"
    and "totalOut s = length (uncompressed s)" and "skipFirst s = skip"
  using assms by (simp_all add: win_inv_def)

lemma win_inv_later:
  assumes "win_inv stack skip hs0 s" and "\<not> first s"
  shows "filled s \<le> length (uncompressed s)"
    and "WindowSize dvd flushed s"
    and "window s = drop (flushed s) (uncompressed s)
                      @ drop (filled s) (snapshot stack (uncompressed s) (flushed s))"
    and "finder_bytes skip new_finder hs0 (take (flushed s) (uncompressed s))
         = Inr (finder s, indexers s)"
  using assms by (simp_all add: win_inv_def)

lemma win_invI:
  assumes "length (window s) = WindowSize" and "avail_out s \<le> WindowSize"
    and "totalOut s = length (uncompressed s)" and "skipFirst s = skip" and "\<not> first s"
    and "filled s \<le> length (uncompressed s)"
    and "WindowSize dvd flushed s"
    and "window s = drop (flushed s) (uncompressed s)
                      @ drop (filled s) (snapshot stack (uncompressed s) (flushed s))"
    and "finder_bytes skip new_finder hs0 (take (flushed s) (uncompressed s))
         = Inr (finder s, indexers s)"
  shows "win_inv stack skip hs0 s"
  using assms by (simp add: win_inv_def)

lemma rewind_window_win:
  assumes "rewind_window s = Inr s1" and "win_inv stack skip hs0 s" and "length stack = WindowSize"
  shows "win_inv stack skip hs0 s1" and "\<not> first s1"
proof -
  note b = win_inv_basic [OF assms(2)]
  show "\<not> first s1"
    using assms(1) win_inv_first(1) [OF assms(2)]
    by (auto simp: rewind_window_def Let_def split: if_splits sum.splits prod.splits)
  show "win_inv stack skip hs0 s1"
  proof (cases "avail_out s = 0")
    case False
    then have "s1 = s" using assms(1) by (simp add: rewind_window_def)
    then show ?thesis using assms(2) by simp
  next
    case True
    show ?thesis
    proof (cases "first s")
      case True
      note f = win_inv_first [OF assms(2) True]
      have "s1 = s\<lparr>avail_out := WindowSize, first := False\<rparr>"
        using assms(1) True f(1) by (simp add: rewind_window_def Let_def)
      then show ?thesis
        using f b assms(3) by (simp add: win_inv_def snapshot_def filled_def flushed_def)
    next
      case False
      note l = win_inv_later [OF assms(2) False]
      define U where "U = uncompressed s"
      define n where "n = length U"
      have fl: "filled s = WindowSize" "flushed s = n - WindowSize"
        using True by (simp_all add: filled_def flushed_def n_def U_def)
      have full: "WindowSize \<le> n" and dv: "WindowSize dvd (n - WindowSize)"
        and w: "window s = drop (n - WindowSize) U @ drop WindowSize (snapshot stack U (n - WindowSize))"
        and fb: "finder_bytes skip new_finder hs0 (take (n - WindowSize) U) = Inr (finder s, indexers s)"
        using l by (simp_all add: fl U_def [symmetric] n_def [symmetric])
      have ls: "length (snapshot stack U (n - WindowSize)) = WindowSize"
        using assms(3) by (intro length_snapshot) (simp_all add: n_def)
      have w': "window s = drop (n - WindowSize) U" using w ls by simp
      from assms(1) True False obtain fd hs where
        add: "finder_add (skipFirst s) (finder s) (indexers s) (take WindowSize (window s)) False
                = Inr (fd, hs)"
        and s1: "s1 = s\<lparr>avail_out := WindowSize, finder := fd, indexers := hs, first := False\<rparr>"
        by (auto simp: rewind_window_def Let_def split: sum.splits prod.splits)
      have tw: "take WindowSize (window s) = drop (n - WindowSize) U" using b(1) by (simp add: w')
      have "finder_bytes skip (finder s) (indexers s) (drop (n - WindowSize) U) = Inr (fd, hs)"
        using add by (simp add: finder_add_def b(4) tw split: sum.splits)
      then have "finder_bytes skip new_finder hs0 (take (n - WindowSize) U @ drop (n - WindowSize) U)
          = Inr (fd, hs)"
        by (simp only: finder_bytes_append fb sum.case prod.case)
      then have fb': "finder_bytes skip new_finder hs0 (take n U) = Inr (fd, hs)"
        by (simp add: n_def)
      have sn: "snapshot stack U n = drop (n - WindowSize) U"
        using snapshot_step [of stack WindowSize n U] assms(3) full dv ls
        by (simp add: n_def)
      have dn: "WindowSize dvd n"
        using dv full by (metis dvd_add_triv_right_iff le_add_diff_inverse2)
      have fl1: "filled s1 = 0" "flushed s1 = n"
        by (simp_all add: s1 filled_def flushed_def n_def U_def)
      show ?thesis
        using b full fb' sn w' dn
        by (intro win_invI) (simp_all add: fl1, simp_all add: s1 U_def [symmetric] n_def [symmetric])
    qed
  qed
qed

lemma build_inflate_fields:
  obtains w where "length w \<le> avail_out s"
    and "avail_out (build_inflate zl s) = avail_out s - length w"
    and "window (build_inflate zl s)
           = take (filled s) (window s) @ w @ drop (filled s + length w) (window s)"
    and "uncompressed (build_inflate zl s) = uncompressed s @ w"
    and "totalOut (build_inflate zl s) = totalOut s + length w"
    and "first (build_inflate zl s) = first s" and "finder (build_inflate zl s) = finder s"
    and "indexers (build_inflate zl s) = indexers s"
    and "skipFirst (build_inflate zl s) = skipFirst s"
proof -
  define w where
    "w = take (avail_out s) (produced (inflate zl (state s) (next_in s) (avail_out s) Z_BLOCK))"
  have "length w \<le> avail_out s" by (simp add: w_def)
  then show ?thesis
    by (intro that [of w]) (simp_all add: build_inflate_def Let_def w_def filled_def)
qed

lemma build_inflate_win:
  assumes "win_inv stack skip hs0 s" and "\<not> first s"
  shows "win_inv stack skip hs0 (build_inflate zl s)"
proof -
  note b = win_inv_basic [OF assms(1)] and l = win_inv_later [OF assms]
  define U where "U = uncompressed s"
  define m where "m = flushed s"
  define p where "p = filled s"
  obtain w where w: "length w \<le> avail_out s"
    and f: "avail_out (build_inflate zl s) = avail_out s - length w"
      "window (build_inflate zl s) = take p (window s) @ w @ drop (p + length w) (window s)"
      "uncompressed (build_inflate zl s) = U @ w"
      "totalOut (build_inflate zl s) = totalOut s + length w"
      "first (build_inflate zl s) = first s" "finder (build_inflate zl s) = finder s"
      "indexers (build_inflate zl s) = indexers s"
      "skipFirst (build_inflate zl s) = skipFirst s"
    unfolding U_def p_def by (rule build_inflate_fields)
  have pn: "p \<le> length U" and mU: "m \<le> length U" and mp: "m + p = length U"
    using l(1) by (simp_all add: p_def m_def U_def flushed_def)
  have lA: "length (drop m U) = p" using mp by simp
  have win: "window s = drop m U @ drop p (snapshot stack U m)"
    using l(3) by (simp add: U_def m_def p_def)
  have fl': "filled (build_inflate zl s) = p + length w"
    using w b(2) by (simp add: filled_def f(1) p_def)
  then have fu': "flushed (build_inflate zl s) = m"
    using mp by (simp add: flushed_def f(3))
  have lA': "length U - m = p" using mp by simp
  have t: "take p (window s) = drop m U" by (simp add: win lA')
  have d: "drop (p + length w) (window s) = drop (p + length w) (snapshot stack U m)"
    using mp by (simp add: win lA' add.commute)
  have e1: "drop m (U @ w) = drop m U @ w" using mU by simp
  have e2: "snapshot stack (U @ w) m = snapshot stack U m" using mU by (rule snapshot_append)
  have "window (build_inflate zl s)
      = drop m (U @ w) @ drop (p + length w) (snapshot stack (U @ w) m)"
    unfolding f(2) t d e1 e2 by simp
  moreover have "finder_bytes skip new_finder hs0 (take m (U @ w)) = Inr (finder s, indexers s)"
    using l(4) mU by (simp add: U_def m_def)
  moreover have "length (window (build_inflate zl s)) = WindowSize"
    using b(1,2) w by (simp add: f(2) p_def filled_def)
  moreover have "filled (build_inflate zl s) \<le> length (uncompressed (build_inflate zl s))"
    using pn by (simp add: fl' f(3))
  moreover have "WindowSize dvd flushed (build_inflate zl s)"
    using l(2) by (simp add: fu' m_def)
  moreover have "avail_out (build_inflate zl s) \<le> WindowSize"
    using b(2) by (simp add: f(1))
  moreover have "totalOut (build_inflate zl s) = length (uncompressed (build_inflate zl s))"
    using b(3) by (simp add: f(3,4) U_def)
  ultimately show ?thesis
    using b(4) assms(2)
    by (intro win_invI) (simp_all add: fl' fu' f(3,5,6,7,8))
qed

lemma checkpoint_keeps:
  assumes "checkpoint zl s = Inr s'"
  shows "window s' = window s" and "avail_out s' = avail_out s"
    and "uncompressed s' = uncompressed s" and "finder s' = finder s"
    and "indexers s' = indexers s" and "skipFirst s' = skipFirst s" and "first s' = first s"
    and "state s' = state s" and "next_in s' = next_in s" and "indexEvery s' = indexEvery s"
  using assms
  by (cases rule: checkpoint_cases;
      simp add: bind_checkpoint_def log_checkpoint_def flush_row_def Let_def)+

lemma checkpoint_win:
  assumes "checkpoint zl s = Inr s'" and "win_inv stack skip hs0 s"
  shows "win_inv stack skip hs0 s'"
proof -
  note k = checkpoint_keeps [OF assms(1)] checkpoint_logged(2) [OF assms(1)]
  have "filled s' = filled s" "flushed s' = flushed s"
    by (simp_all add: filled_def flushed_def k)
  then show ?thesis using assms(2) by (simp add: win_inv_def k)
qed

lemma filled_read_chunk [simp]:
  "filled (s\<lparr>next_in := chunk, from_file := f\<rparr>) = filled s"
  "flushed (s\<lparr>next_in := chunk, from_file := f\<rparr>) = flushed s"
  by (simp_all add: filled_def flushed_def)

lemma read_chunk_win:
  assumes "win_inv stack skip hs0 s" and "read_chunk s = Inr s1"
  shows "win_inv stack skip hs0 s1"
  using assms(2)
proof (rule read_chunk_keeps)
  fix chunk f
  assume "s1 = s\<lparr>next_in := chunk, from_file := f\<rparr>"
  then show ?thesis using assms(1) by (simp add: win_inv_def)
qed

lemma inflate_step_win:
  assumes "inflate_step zl s = Inr s'" and "win_inv stack skip hs0 s"
    and "length stack = WindowSize"
  shows "win_inv stack skip hs0 s'" and "\<not> first s'"
proof -
  from assms(1) obtain s1 where s1: "rewind_window s = Inr s1"
    by (auto simp: inflate_step_def split: sum.splits)
  note w1 = rewind_window_win [OF s1 assms(2,3)]
  have w2: "win_inv stack skip hs0 (build_inflate zl s1)" using w1 by (rule build_inflate_win)
  have f2: "\<not> first (build_inflate zl s1)"
    using w1(2) by (simp add: build_inflate_def Let_def)
  have "s' = build_inflate zl s1 \<or> checkpoint zl (build_inflate zl s1) = Inr s'"
    using assms(1) by (auto simp: inflate_step_def s1 Let_def split: if_splits)
  then show "win_inv stack skip hs0 s'"
    using w2 checkpoint_win by blast
  show "\<not> first s'"
    using f2 \<open>s' = build_inflate zl s1 \<or> checkpoint zl (build_inflate zl s1) = Inr s'\<close>
      checkpoint_keeps(7)
    by auto
qed

lemma row_ok_append:
  assumes "row_ok zl stack U r"
  shows "row_ok zl stack (U @ w) r"
  using assms by (auto simp: row_ok_def snapshot_append split: option.splits)

lemma row_ok_end:
  assumes "row_ok zl stack U r"
  shows "row_ok zl stack U (r\<lparr>uncompressedEndOffset := e\<rparr>)"
  using assms by (simp add: row_ok_def split: option.splits)

lemma window_snapshot_eq:
  assumes "length w = WindowSize" and "left \<le> WindowSize"
  shows "window_snapshot w left = drop (WindowSize - left) w @ take (WindowSize - left) w"
  using assms by (auto simp: window_snapshot_def)

lemma checkpoint_snapshot:
  assumes "win_inv stack skip hs0 s" and "\<not> first s" and "length stack = WindowSize"
  shows "window_snapshot (window s) (avail_out s)
           = snapshot stack (uncompressed s) (length (uncompressed s))"
proof -
  note b = win_inv_basic [OF assms(1)] and l = win_inv_later [OF assms(1,2)]
  define U where "U = uncompressed s"
  define m where "m = flushed s"
  define p where "p = filled s"
  have mp: "m + p = length U" and pW: "p \<le> WindowSize"
    using l(1) by (simp_all add: p_def m_def U_def flushed_def filled_def)
  have lA': "length U - m = p" using mp by simp
  have win: "window s = drop m U @ drop p (snapshot stack U m)"
    using l(3) by (simp add: U_def m_def p_def)
  have m: "m = length U - p" using mp by simp
  have "window_snapshot (window s) (avail_out s) = drop p (window s) @ take p (window s)"
    using window_snapshot_eq [OF b(1,2)] by (simp add: p_def filled_def)
  also have "\<dots> = drop p (snapshot stack U m) @ drop m U"
    using mp by (simp add: win lA')
  also have "\<dots> = snapshot stack U (length U)"
    unfolding m using assms(3) pW mp l(2)
    by (intro snapshot_step) (simp_all add: m_def [symmetric] m [symmetric])
  finally show ?thesis by (simp add: U_def)
qed

lemma makeWindow_Inr:
  assumes "makeWindow zl outSize w left = Inr out"
  shows "compress2 zl (window_snapshot w left) outSize 9 = (Z_OK, out)"
  using assms
  by (cases "compress2 zl (window_snapshot w left) outSize 9")
     (auto simp: makeWindow_def X_def split: if_splits)

lemma checkpoint_rows:
  assumes "checkpoint zl s = Inr s'" and "rows_inv zl stack s"
    and "win_inv stack skip hs0 s" and "\<not> first s" and "length stack = WindowSize"
  shows "rows_inv zl stack s'"
  using assms(1)
proof (cases rule: checkpoint_cases)
  case skip
  then show ?thesis using assms(2) by simp
next
  case (emit apWindow)
  define U where "U = uncompressed s"
  define l where "l = log_checkpoint s"
  have lw: "window l = window s" "avail_out l = avail_out s" "uncompressed l = U"
    "totalOut l = totalOut s"
    by (simp_all add: l_def log_checkpoint_def flush_row_def Let_def U_def)
  have lrows: "row_ok zl stack U (addIndex l)"
    "list_all (row_ok zl stack U) (AccessPoints (tables l))"
    using assms(2)
    by (auto simp: l_def log_checkpoint_def flush_row_def Let_def U_def rows_inv_def
          intro: row_ok_end)
  have "compress2 zl (window_snapshot (window s) (avail_out s)) (compressBound zl WindowSize) 9
      = (Z_OK, apWindow)"
    using makeWindow_Inr [OF emit(4)] by (simp add: lw l_def [symmetric])
  then have c: "compress2 zl (snapshot stack U (length U)) (compressBound zl WindowSize) 9
      = (Z_OK, apWindow)"
    by (simp add: checkpoint_snapshot [OF assms(3,4,5)] U_def)
  have t: "totalOut s = length U" using win_inv_basic(3) [OF assms(3)] by (simp add: U_def)
  have "row_ok zl stack U (addIndex (bind_checkpoint l apWindow))"
    using c by (simp add: row_ok_def bind_checkpoint_def lw t)
  then show ?thesis
    using lrows
    by (simp add: rows_inv_def emit(5) l_def [symmetric])
       (simp add: bind_checkpoint_def lw)
qed

lemma inflate_step_rows:
  assumes "inflate_step zl s = Inr s'" and "rows_inv zl stack s"
    and "win_inv stack skip hs0 s" and "length stack = WindowSize"
  shows "rows_inv zl stack s'"
proof -
  from assms(1) obtain s1 where s1: "rewind_window s = Inr s1"
    by (auto simp: inflate_step_def split: sum.splits)
  note w1 = rewind_window_win [OF s1 assms(3,4)]
  define s2 where "s2 = build_inflate zl s1"
  have w2: "win_inv stack skip hs0 s2" unfolding s2_def using w1 by (rule build_inflate_win)
  have f2: "\<not> first s2"
    using w1(2) by (simp add: s2_def build_inflate_def Let_def)
  have u1: "uncompressed s1 = uncompressed s"
    using s1 by (auto simp: rewind_window_def Let_def split: if_splits sum.splits prod.splits)
  obtain w where "uncompressed s2 = uncompressed s1 @ w"
    unfolding s2_def by (rule build_inflate_fields)
  then have r2: "rows_inv zl stack s2"
    using assms(2) rewind_window_ap(1,2) [OF s1]
    by (auto simp: rows_inv_def s2_def build_inflate_ap u1 list_all_iff intro: row_ok_append)
  have "s' = s2 \<or> checkpoint zl s2 = Inr s'"
    using assms(1) by (auto simp: inflate_step_def s1 s2_def Let_def split: if_splits)
  then show ?thesis
    using r2 checkpoint_rows [OF _ r2 w2 f2 assms(4)] by blast
qed

lemma read_chunks_build_inv:
  assumes "read_chunks zl fuel (start_build z skip every hs f stack) = Some (Inr s)"
    and "length stack = WindowSize"
  shows "build_inv zl stack skip hs s" and "ret s = Z_STREAM_END"
proof -
  have "build_inv zl stack skip hs s \<and> ret s = Z_STREAM_END"
  proof (rule read_chunks_invariant [where P = "build_inv zl stack skip hs", OF assms(1)])
    show "build_inv zl stack skip hs (start_build z skip every hs f stack)"
      using assms(2)
      by (simp add: build_inv_def win_inv_def rows_inv_def row_ok_def start_build_def)
    show "ret (start_build z skip every hs f stack) \<noteq> Z_STREAM_END"
      by (simp add: start_build_def Z_STREAM_END_def)
  next
    fix a b
    assume "build_inv zl stack skip hs a" and "inflate_step zl a = Inr b"
    then show "build_inv zl stack skip hs b"
      using inflate_step_win(1) [of zl a b stack skip hs] inflate_step_rows [of zl a b stack skip hs]
        assms(2)
      by (simp add: build_inv_def)
  next
    fix a b
    assume inv: "build_inv zl stack skip hs a" and rc: "read_chunk a = Inr b"
    from rc obtain chunk g where "b = a\<lparr>next_in := chunk, from_file := g\<rparr>"
      by (rule read_chunk_keeps)
    then have "rows_inv zl stack b" using inv by (simp add: build_inv_def rows_inv_def)
    then show "build_inv zl stack skip hs b"
      using inv read_chunk_win [OF _ rc] by (simp add: build_inv_def)
  qed
  then show "build_inv zl stack skip hs s" and "ret s = Z_STREAM_END" by simp_all
qed

lemma finish_build_rows:
  assumes "finish_build s = Inr s'" and "rows_inv zl stack s"
  shows "list_all (row_ok zl stack (uncompressed s')) (AccessPoints (tables s'))"
  using assms finish_build_tables [OF assms(1)]
  by (auto simp: rows_inv_def flush_row_def Let_def intro: row_ok_end)

text \<open>
  Claim C4, as amended. \<^verbatim>\<open>build\<close> never initialises the array \<^verbatim>\<open>window\<close>. For every row of
  \<^verbatim>\<open>AccessPoints\<close> of a completed build whose \<^verbatim>\<open>uncompressedOffset\<close> \<open>u\<close> is below 32 KiB, the
  stored blob is what \<^verbatim>\<open>compress2\<close> (level 9) made of this snapshot: the last
  \<open>WindowSize - u\<close> bytes that the array held when \<^verbatim>\<open>build\<close> was entered, followed by the
  \<open>u\<close> bytes of output produced so far.
\<close>

theorem early_checkpoint_window:
  assumes "build zl fuel fstat skip every hs f stack = Some (Inr s)"
    and "length stack = WindowSize"
    and "r \<in> set (AccessPoints (tables s))"
    and "uncompressedOffset r = Some u" and "u < int WindowSize"
  shows "0 \<le> u \<and> nat u \<le> length (uncompressed s)
       \<and> (\<exists>blob. window_blob r = Some blob
             \<and> compress2 zl (drop (nat u) stack @ take (nat u) (uncompressed s))
                   (compressBound zl WindowSize) 9 = (Z_OK, blob))"
proof -
  from assms(1) obtain c z s0 where
    run: "read_chunks zl fuel (start_build z skip every hs f stack) = Some (Inr s0)"
    and fin: "finish_build s0 = Inr s"
    by (rule build_cases)
  have "rows_inv zl stack s0"
    using read_chunks_build_inv(1) [OF run assms(2)] by (simp add: build_inv_def)
  from finish_build_rows [OF fin this] assms(3)
  have "row_ok zl stack (uncompressed s) r" by (simp add: list_all_iff)
  moreover have "snapshot stack (uncompressed s) (nat u)
      = drop (nat u) stack @ take (nat u) (uncompressed s)"
    using assms(5) by (simp add: snapshot_def)
  ultimately show ?thesis using assms(4) by (simp add: row_ok_def)
qed

lemma length_ff_window: "length ff_window = 32768"
  by (simp add: ff_window_def WindowSize_def)

lemma toy_build_ff:
  "build toy_zlib 9 (Some \<lparr>st_size = 10, st_mtime = 5\<rparr>) 0 1 [] abc_file ff_window
   = Some (Inr abc_built_ff)"
  by (simp add: toy_build_defs abc_built_ff_def length_ff_window)

lemma ff_not_zero: "replicate WindowSize 0 \<noteq> ff_window"
proof -
  have "WindowSize \<noteq> 0" by (simp add: WindowSize_def)
  then show ?thesis by (simp add: ff_window_def)
qed

theorem early_checkpoint_window_witness:
  "build toy_zlib 9 (Some \<lparr>st_size = 10, st_mtime = 5\<rparr>) 0 1 [] abc_file zero_window
     = Some (Inr abc_built)
   \<and> length zero_window = WindowSize
   \<and> AccessPoints abc_db ! 1 \<in> set (AccessPoints (tables abc_built))
   \<and> uncompressedOffset (AccessPoints abc_db ! 1) = Some 3
   \<and> window_blob (AccessPoints abc_db ! 1) = Some (drop 3 zero_window @ [97, 10, 98])
   \<and> take 3 (uncompressed abc_built) = [97, 10, 98]"
proof -
  have a: "length zero_window = WindowSize" by (simp add: zero_window_def)
  have b: "AccessPoints abc_db ! 1 \<in> set (AccessPoints (tables abc_built))"
    and c: "uncompressedOffset (AccessPoints abc_db ! 1) = Some 3"
    and d: "window_blob (AccessPoints abc_db ! 1) = Some (drop 3 zero_window @ [97, 10, 98])"
    and e: "take 3 (uncompressed abc_built) = [97, 10, 98]"
    by (simp_all add: abc_built_def abc_db_def)
  have "(3::int) < int WindowSize" by (simp add: WindowSize_def)
  from early_checkpoint_window [OF toy_build a b c this] toy_build a b c d e
  show ?thesis by simp
qed

text \<open>
  With an array that holds 255 everywhere the window of the first checkpoint is that array,
  and not the zeros of the specification.
\<close>

theorem early_checkpoint_window_counterexample:
  "build toy_zlib 9 (Some \<lparr>st_size = 10, st_mtime = 5\<rparr>) 0 1 [] abc_file ff_window
     = Some (Inr abc_built_ff)
   \<and> uncompressedOffset (hd (AccessPoints (tables abc_built_ff))) = Some 0
   \<and> window_blob (hd (AccessPoints (tables abc_built_ff))) = Some ff_window
   \<and> compress2 toy_zlib (spec_early_window (uncompressed abc_built_ff) 0)
         (compressBound toy_zlib WindowSize) 9 \<noteq> (Z_OK, ff_window)"
proof -
  have "uncompressedOffset (hd (AccessPoints (tables abc_built_ff))) = Some 0"
    and "window_blob (hd (AccessPoints (tables abc_built_ff))) = Some ff_window"
    by (simp_all add: abc_built_ff_def abc_built_def abc_db_def)
  moreover have "compress2 toy_zlib (spec_early_window (uncompressed abc_built_ff) 0)
         (compressBound toy_zlib WindowSize) 9 \<noteq> (Z_OK, ff_window)"
    using ff_not_zero by (simp add: toy_zlib_def spec_early_window_def)
  ultimately show ?thesis using toy_build_ff by simp
qed

section \<open>Properties of the lines of a build\<close>






lemma length_offsets_from [simp]: "length (offsets_from off ls) = length ls"
  by (induction ls arbitrary: off) simp_all












section \<open>Properties of the loops of \<^verbatim>\<open>print\<close>\<close>

lemma take_min_drop: "take (min n (length xs - p)) (drop p xs) = take n (drop p xs)"
  by (simp add: min_def)

lemma fill_input_reads:
  assumes "input_inv F s" and "cpos s < length F"
  obtains s1 where "fill_input s = Inr s1" and "input_inv F s1" and "cpos s1 = cpos s"
    and "avail_in s1 \<noteq> 0" and "state s1 = state s" and "avail_out s1 = avail_out s"
    and "skipping s1 = skipping s" and "numToSkip s1 = numToSkip s" and "lineBuf s1 = lineBuf s"
proof (cases "avail_in s = 0")
  case False
  then have "fill_input s = Inr s" by (simp add: fill_input_def)
  then show ?thesis by (rule that [OF _ assms(1)]) (use False in simp_all)
next
  case True
  define p where "p = pos (compressed s)"
  define chunk where "chunk = take ChunkSize (drop p F)"
  define f where "f = (compressed s)\<lparr>pos := min (length F) (p + ChunkSize)\<rparr>"
  define s1 where "s1 = s\<lparr>next_in := chunk, compressed := f\<rparr>"
  have p: "p < length F" "cpos s = p" using assms(2) True by (simp_all add: cpos_def p_def)
  have i: "bytes (compressed s) = F" "\<not> failing (compressed s)"
    using assms(1) by (simp_all add: input_inv_def)
  have rd: "fread (compressed s) ChunkSize = (chunk, f)"
    using i by (simp add: fread_def chunk_def f_def p_def)
  have ne: "chunk \<noteq> []" using p by (simp add: chunk_def ChunkSize_def)
  have len: "length chunk = min ChunkSize (length F - p)" by (simp add: chunk_def)
  have f1: "fill_input s = Inr s1"
    using True rd ne i by (simp add: fill_input_def s1_def ferror_def f_def)
  have pf: "pos f = p + length chunk"
    using p len by (simp add: f_def)
  have "cpos s1 = p"
    by (simp add: cpos_def s1_def avail_in_def pf)
  then have c1: "cpos s1 = cpos s" by (simp add: p(2))
  have i1: "input_inv F s1"
    unfolding input_inv_def c1 p(2)
    using i p len by (simp add: s1_def avail_in_def pf) (simp add: f_def chunk_def take_min_drop)
  have a1: "avail_in s1 \<noteq> 0" using ne by (simp add: avail_in_def s1_def)
  show ?thesis by (rule that [OF f1 i1 c1 a1]) (simp_all add: s1_def)
qed

lemma print_inflate_reads:
  assumes "decodes_raw zl F U D" and "input_inv F s" and "avail_in s \<noteq> 0"
    and "D (state s) (cpos s) u" and "0 < avail_out s" and "print_inflate zl s = (r, s2)"
  shows "r \<noteq> Z_NEED_DICT \<and> r \<noteq> Z_MEM_ERROR \<and> r \<noteq> Z_DATA_ERROR"
    and "input_inv F s2" and "avail_out s2 \<le> avail_out s" and "cpos s \<le> cpos s2"
    and "D (state s2) (cpos s2) (u + (avail_out s - avail_out s2))"
    and "u + (avail_out s - avail_out s2) \<le> length U"
    and "cpos s < cpos s2 \<or> avail_out s2 < avail_out s \<or> r = Z_STREAM_END"
    and "r = Z_STREAM_END \<Longrightarrow> u + (avail_out s - avail_out s2) = length U"
    and "skipping s2 = skipping s" and "numToSkip s2 = numToSkip s"
    and "lineBuf s2 = (if skipping s then lineBuf s
                       else lineBuf s @ take (avail_out s - avail_out s2) (drop u U))"
proof -
  define c where "c = cpos s"
  define k where "k = avail_in s"
  define res where "res = inflate zl (state s) (take k (drop c F)) (avail_out s) Z_NO_FLUSH"
  define written where "written = take (avail_out s) (produced res)"
  have i: "bytes (compressed s) = F" "\<not> failing (compressed s)" "k \<le> pos (compressed s)"
    "pos (compressed s) \<le> length F" "next_in s = take k (drop c F)"
    using assms(2) by (simp_all add: input_inv_def k_def c_def)
  have ck: "c + k = pos (compressed s)" using i(3) by (simp add: c_def cpos_def k_def)
  have k0: "0 < k" using assms(3) by (simp add: k_def)
  have cF: "c < length F" using ck k0 i(4) by simp
  from assms(1) have "\<forall>z c u k out. D z c u \<longrightarrow> 0 < k \<longrightarrow> c < length F \<longrightarrow> 0 < out \<longrightarrow>
           (let r = inflate zl z (take k (drop c F)) out Z_NO_FLUSH;
                written = take out (produced r)
            in ret_code r \<noteq> Z_NEED_DICT \<and> ret_code r \<noteq> Z_MEM_ERROR \<and> ret_code r \<noteq> Z_DATA_ERROR
             \<and> consumed r \<le> min k (length F - c)
             \<and> written = take (length written) (drop u U)
             \<and> D (new_state r) (c + consumed r) (u + length written)
             \<and> (0 < consumed r \<or> written \<noteq> [] \<or> ret_code r = Z_STREAM_END)
             \<and> (ret_code r = Z_STREAM_END \<longrightarrow> u + length written = length U))"
    by (simp add: decodes_raw_def)
  note c0 = this [rule_format, OF assms(4) [folded c_def] k0 cF assms(5), unfolded Let_def,
      folded res_def, folded written_def]
  have ct: "ret_code res \<noteq> Z_NEED_DICT \<and> ret_code res \<noteq> Z_MEM_ERROR \<and> ret_code res \<noteq> Z_DATA_ERROR"
    "consumed res \<le> min k (length F - c)"
    "written = take (length written) (drop u U)"
    "D (new_state res) (c + consumed res) (u + length written)"
    "0 < consumed res \<or> written \<noteq> [] \<or> ret_code res = Z_STREAM_END"
    "ret_code res = Z_STREAM_END \<longrightarrow> u + length written = length U"
    using c0 by simp_all
  from assms(1) assms(4) have uU: "u \<le> length U" unfolding decodes_raw_def by blast
  have r: "r = ret_code res"
    and s2: "s2 = s\<lparr>state := new_state res, next_in := drop (consumed res) (next_in s),
                   avail_out := avail_out s - length written, data_type := new_data_type res,
                   lineBuf := (if skipping s then lineBuf s else lineBuf s @ written)\<rparr>"
    using assms(6) by (auto simp: print_inflate_def Let_def res_def written_def i(5))
  have lw: "length written \<le> avail_out s" by (simp add: written_def)
  have w: "avail_out s - avail_out s2 = length written" using lw by (simp add: s2)
  have a2: "avail_in s2 = k - consumed res" by (simp add: s2 avail_in_def k_def [unfolded avail_in_def])
  have c2: "cpos s2 = c + consumed res"
    using ct(2) ck by (simp add: cpos_def a2) (simp add: s2)
  have lu: "length written \<le> length U - u"
  proof -
    have "length written = length (take (length written) (drop u U))" using ct(3) by simp
    then show ?thesis by simp
  qed
  show "r \<noteq> Z_NEED_DICT \<and> r \<noteq> Z_MEM_ERROR \<and> r \<noteq> Z_DATA_ERROR" using ct(1) r by simp
  show "input_inv F s2"
    unfolding input_inv_def c2 a2
    using i ct(2) ck by (auto simp: s2 drop_take add.commute)
  show "avail_out s2 \<le> avail_out s" by (simp add: s2)
  show "cpos s \<le> cpos s2" by (simp add: c2 c_def [symmetric])
  show "D (state s2) (cpos s2) (u + (avail_out s - avail_out s2))"
    using ct(4) by (simp add: w c2) (simp add: s2)
  show "u + (avail_out s - avail_out s2) \<le> length U"
    using lu uU by (simp add: w)
  have o2: "avail_out s2 = avail_out s - length written" by (simp add: s2)
  show "cpos s < cpos s2 \<or> avail_out s2 < avail_out s \<or> r = Z_STREAM_END"
    using ct(5) lw assms(5) unfolding c2 c_def [symmetric] r o2 by auto
  show "r = Z_STREAM_END \<Longrightarrow> u + (avail_out s - avail_out s2) = length U"
    using ct(6) by (simp add: w r)
  show "skipping s2 = skipping s" and "numToSkip s2 = numToSkip s" by (simp_all add: s2)
  show "lineBuf s2 = (if skipping s then lineBuf s
                       else lineBuf s @ take (avail_out s - avail_out s2) (drop u U))"
    using ct(3) by (simp add: w) (simp add: s2)
qed

lemma input_inv_cpos: "input_inv F s \<Longrightarrow> cpos s \<le> length F"
  unfolding input_inv_def cpos_def by linarith

lemma take_add_drop: "take a (drop u xs) @ take b (drop (u + a) xs) = take (a + b) (drop u xs)"
  by (simp add: take_add add.commute)

lemma inflate_loop_reads:
  assumes ct: "decodes_raw zl F U D"
  shows "input_inv F s \<Longrightarrow> D (state s) (cpos s) u \<Longrightarrow> 0 < avail_out s
    \<Longrightarrow> length F - cpos s + avail_out s < n
    \<Longrightarrow> \<exists>s'. inflate_loop zl n s = Some (Inr s') \<and> input_inv F s'
          \<and> avail_out s' \<le> avail_out s
          \<and> D (state s') (cpos s') (u + (avail_out s - avail_out s'))
          \<and> u + (avail_out s - avail_out s') \<le> length U
          \<and> (avail_out s' = 0 \<or> u + (avail_out s - avail_out s') = length U)
          \<and> cpos s \<le> cpos s'
          \<and> skipping s' = skipping s \<and> numToSkip s' = numToSkip s
          \<and> lineBuf s' = (if skipping s then lineBuf s
                           else lineBuf s @ take (avail_out s - avail_out s') (drop u U))"
proof (induction n arbitrary: s u)
  case 0
  then show ?case by simp
next
  case (Suc n)
  from ct Suc.prems(2) have cF: "cpos s < length F" unfolding decodes_raw_def by blast
  from Suc.prems(1) cF obtain s1 where
    f1: "fill_input s = Inr s1" and i1: "input_inv F s1" and c1: "cpos s1 = cpos s"
    and a1: "avail_in s1 \<noteq> 0" and z1: "state s1 = state s" and o1: "avail_out s1 = avail_out s"
    and k1: "skipping s1 = skipping s" "numToSkip s1 = numToSkip s" "lineBuf s1 = lineBuf s"
    by (rule fill_input_reads)
  obtain r s2 where p2: "print_inflate zl s1 = (r, s2)" by (cases "print_inflate zl s1")
  have d1: "D (state s1) (cpos s1) u" using Suc.prems(2) by (simp add: z1 c1)
  have o1': "0 < avail_out s1" using Suc.prems(3) by (simp add: o1)
  note pr = print_inflate_reads [OF ct i1 a1 d1 o1' p2]
  define w where "w = avail_out s1 - avail_out s2"
  note pr' = pr [folded w_def]
  have w: "avail_out s = w + avail_out s2" using pr(3) by (simp add: w_def o1)
  note step = inflate_loop.simps(2) [of zl n s, unfolded f1 sum.case p2 prod.case]
  show ?case
  proof (cases "r \<noteq> Z_STREAM_END \<and> avail_out s2 \<noteq> 0")
    case True
    then have run: "inflate_loop zl (Suc n) s = inflate_loop zl n s2"
      using pr(1) by (simp add: step)
    have m: "length F - cpos s2 + avail_out s2 < n"
      using Suc.prems(4) pr(4) pr(7) pr(3) True input_inv_cpos [OF pr(2)]
      by (simp add: c1 o1) linarith
    from Suc.IH [OF pr(2) pr'(5) _ m] True obtain s' where
      s': "inflate_loop zl n s2 = Some (Inr s')" "input_inv F s'"
      "avail_out s' \<le> avail_out s2"
      "D (state s') (cpos s') (u + w + (avail_out s2 - avail_out s'))"
      "u + w + (avail_out s2 - avail_out s') \<le> length U"
      "avail_out s' = 0 \<or> u + w + (avail_out s2 - avail_out s') = length U"
      "cpos s2 \<le> cpos s'"
      "skipping s' = skipping s2" "numToSkip s' = numToSkip s2"
      "lineBuf s' = (if skipping s2 then lineBuf s2
                     else lineBuf s2 @ take (avail_out s2 - avail_out s') (drop (u + w) U))"
      by auto
    have e: "u + w + (avail_out s2 - avail_out s') = u + (avail_out s - avail_out s')"
      using s'(3) w by simp
    have e': "w + (avail_out s2 - avail_out s') = avail_out s - avail_out s'"
      using s'(3) w by simp
    have "lineBuf s' = (if skipping s then lineBuf s
                        else lineBuf s @ take (avail_out s - avail_out s') (drop u U))"
      using s'(10) pr'(11) pr(9) by (simp add: k1 take_add_drop e')
    then show ?thesis
      using s'(1,2,3,7,8,9) s'(4,5,6) [unfolded e] pr(4) pr(9,10) w
      by (simp add: run k1 c1)
  next
    case False
    then have run: "inflate_loop zl (Suc n) s = Some (Inr s2)"
      using pr(1) by (auto simp: step)
    have ww: "avail_out s - avail_out s2 = w" using w by simp
    have "avail_out s2 = 0 \<or> u + w = length U"
      using False pr'(8) by blast
    then show ?thesis
      using pr'(2,4,5,6,9,10,11) w by (simp add: run k1 c1 ww)
  qed
qed

lemma uInt_small: "n < 2 ^ 32 \<Longrightarrow> uInt (int n) = n"
  by (simp add: uInt_def nat_mod_distrib)

lemma next_target_reads:
  assumes "skipping s" and "numToSkip s = int ns" and "len < 2 ^ 32"
  shows "next_target (int len) s =
     (if ns = 0 then s\<lparr>avail_out := len, skipping := False\<rparr>
      else if WindowSize < ns
      then s\<lparr>avail_out := WindowSize, numToSkip := int (ns - WindowSize)\<rparr>
      else s\<lparr>avail_out := ns, numToSkip := 0\<rparr>)"
proof -
  have "ns \<le> WindowSize \<Longrightarrow> uInt (int ns) = ns"
    by (rule uInt_small) (simp add: WindowSize_def)
  then show ?thesis
    using assms by (auto simp: next_target_def Let_def uInt_small of_nat_diff)
qed

lemma take_all_more: "length xs \<le> a \<Longrightarrow> length xs \<le> b \<Longrightarrow> take a xs = take b xs"
  by simp

lemma skip_loop_reads:
  assumes ct: "decodes_raw zl F U D" and len: "0 < len" "len < 2 ^ 32" "off \<le> length U"
  shows "input_inv F s \<Longrightarrow> skipping s \<Longrightarrow> lineBuf s = [] \<Longrightarrow> numToSkip s = int ns
    \<Longrightarrow> ns \<le> off \<Longrightarrow> D (state s) (cpos s) (off - ns)
    \<Longrightarrow> length F - cpos s + ns + len < n
    \<Longrightarrow> \<exists>s'. skip_loop zl (int len) n s = Some (Inr s') \<and> lineBuf s' = take len (drop off U)"
proof (induction n arbitrary: s ns)
  case 0
  then show ?case by simp
next
  case (Suc n)
  define t where "t = next_target (int len) s"
  note nt = next_target_reads [OF Suc.prems(2,4) len(2), folded t_def]
  note step = skip_loop.simps(2) [of zl "int len" n s, folded t_def]
  show ?case
  proof (cases "ns = 0")
    case True
    then have t: "t = s\<lparr>avail_out := len, skipping := False\<rparr>" using nt by simp
    have "input_inv F t" "D (state t) (cpos t) off" "0 < avail_out t"
      "length F - cpos t + avail_out t < Suc n"
      using Suc.prems True len by (simp_all add: t input_inv_def cpos_def avail_in_def)
    from inflate_loop_reads [OF ct this] obtain s' where
      s': "inflate_loop zl (Suc n) t = Some (Inr s')" "skipping s' = skipping t"
      "avail_out s' \<le> avail_out t"
      "avail_out s' = 0 \<or> off + (avail_out t - avail_out s') = length U"
      "lineBuf s' = (if skipping t then lineBuf t
                     else lineBuf t @ take (avail_out t - avail_out s') (drop off U))"
      by blast
    have "take (len - avail_out s') (drop off U) = take len (drop off U)"
    proof (cases "avail_out s' = 0")
      case True
      then show ?thesis by simp
    next
      case False
      then have "off + (len - avail_out s') = length U" using s'(4) by (simp add: t)
      then have "length (drop off U) \<le> len - avail_out s'" "length (drop off U) \<le> len"
        by simp_all
      then show ?thesis by (rule take_all_more)
    qed
    then show ?thesis using s' Suc.prems(3) by (simp add: step t)
  next
    case False
    define k where "k = (if WindowSize < ns then WindowSize else ns)"
    have k: "0 < k" "k \<le> ns" using False by (simp_all add: k_def WindowSize_def)
    have t: "t = s\<lparr>avail_out := k, numToSkip := int (ns - k)\<rparr>"
      using nt False by (simp add: k_def)
    have "input_inv F t" "D (state t) (cpos t) (off - ns)" "0 < avail_out t"
      "length F - cpos t + avail_out t < Suc n"
      using Suc.prems k len by (simp_all add: t input_inv_def cpos_def avail_in_def)
    from inflate_loop_reads [OF ct this] obtain s' where
      s': "inflate_loop zl (Suc n) t = Some (Inr s')" "input_inv F s'"
      "avail_out s' \<le> avail_out t"
      "D (state s') (cpos s') (off - ns + (avail_out t - avail_out s'))"
      "avail_out s' = 0 \<or> off - ns + (avail_out t - avail_out s') = length U"
      "cpos t \<le> cpos s'"
      "skipping s' = skipping t" "numToSkip s' = numToSkip t"
      "lineBuf s' = (if skipping t then lineBuf t
                     else lineBuf t @ take (avail_out t - avail_out s') (drop (off - ns) U))"
      by blast
    have z: "avail_out s' = 0"
    proof (rule ccontr)
      assume nz: "avail_out s' \<noteq> 0"
      then have "off - ns + (k - avail_out s') = length U" using s'(5) by (simp add: t)
      moreover have "off - ns + (k - avail_out s') < off"
        using nz k Suc.prems(5) s'(3) by (simp add: t)
      ultimately show False using len(3) by simp
    qed
    have sk: "skipping s'" "lineBuf s' = []" "numToSkip s' = int (ns - k)"
      using s'(7,8,9) Suc.prems(2,3) by (simp_all add: t)
    have d: "D (state s') (cpos s') (off - (ns - k))"
      using s'(4) k Suc.prems(5) z by (simp add: t)
    have "cpos s \<le> cpos s'" using s'(6) by (simp add: t cpos_def avail_in_def)
    then have m: "length F - cpos s' + (ns - k) + len < n"
      using Suc.prems(7) k by simp
    have "ns - k \<le> off" using Suc.prems(5) by simp
    from Suc.IH [OF s'(2) sk this d m] show ?thesis
      using sk(1) by (simp add: step s'(1))
  qed
qed

section \<open>Properties of the decoder during a build\<close>

lemma inflate_steps_fed:
  assumes "inflate_steps zl n s = Some (Inr s')" and "P s" and "avail_in s \<noteq> 0"
    and step: "\<And>s s'. P s \<Longrightarrow> avail_in s \<noteq> 0 \<Longrightarrow> inflate_step zl s = Inr s' \<Longrightarrow> P s'"
  shows "P s' \<and> (ret s' \<noteq> Z_STREAM_END \<longrightarrow> avail_in s' = 0)"
  using assms(1-3)
proof (induction n arbitrary: s)
  case 0
  then show ?case by (simp add: inflate_steps.simps)
next
  case (Suc n)
  note run = Suc.prems(1) [unfolded inflate_steps.simps]
  from run obtain s1 where s1: "inflate_step zl s = Inr s1"
    by (cases "inflate_step zl s") auto
  have p1: "P s1" using step [OF Suc.prems(2,3) s1] .
  show ?case
  proof (cases "ret s1 \<noteq> Z_STREAM_END \<and> avail_in s1 \<noteq> 0")
    case True
    then have "inflate_steps zl n s1 = Some (Inr s')" using run by (simp add: s1)
    from Suc.IH [OF this p1] True show ?thesis by simp
  next
    case False
    then have "s' = s1" using run by (auto simp: s1 split: if_splits)
    then show ?thesis using p1 False by auto
  qed
qed

lemma read_chunks_fed:
  assumes "read_chunks zl n s = Some (Inr s')" and "P s" and "avail_in s = 0"
    and step: "\<And>s s'. P s \<Longrightarrow> avail_in s \<noteq> 0 \<Longrightarrow> inflate_step zl s = Inr s' \<Longrightarrow> P s'"
    and chunk: "\<And>s s'. P s \<Longrightarrow> avail_in s = 0 \<Longrightarrow> read_chunk s = Inr s' \<Longrightarrow> P s'"
  shows "P s' \<and> ret s' = Z_STREAM_END"
  using assms(1-3)
proof (induction n arbitrary: s)
  case 0
  then show ?case by (simp add: read_chunks.simps)
next
  case (Suc n)
  note run = Suc.prems(1) [unfolded read_chunks.simps]
  from run obtain s1 where s1: "read_chunk s = Inr s1"
    by (cases "read_chunk s") auto
  from run obtain s2 where s2: "inflate_steps zl (Suc n) s1 = Some (Inr s2)"
    by (auto simp: s1 split: option.splits sum.splits)
  have a1: "avail_in s1 \<noteq> 0"
    using s1 by (auto simp: read_chunk_def avail_in_def split: prod.splits if_splits)
  have p1: "P s1" by (rule chunk [OF Suc.prems(2,3) s1])
  have p2: "P s2 \<and> (ret s2 \<noteq> Z_STREAM_END \<longrightarrow> avail_in s2 = 0)"
  proof (rule inflate_steps_fed [where P = P, OF s2 p1 a1])
    fix a b
    assume "P a" and "avail_in a \<noteq> 0" and "inflate_step zl a = Inr b"
    then show "P b" by (rule step)
  qed
  show ?case
  proof (cases "ret s2 \<noteq> Z_STREAM_END")
    case True
    then have "read_chunks zl n s2 = Some (Inr s')" using run by (simp add: s1 s2)
    from Suc.IH [OF this] p2 True show ?thesis by simp
  next
    case False
    then have "s' = s2" using run by (simp add: s1 s2)
    then show ?thesis using p2 False by simp
  qed
qed

lemma read_chunk_dec:
  assumes "dec_inv F U B R s" and "avail_in s = 0" and "read_chunk s = Inr s1"
  shows "dec_inv F U B R s1"
proof -
  define p where "p = pos (from_file s)"
  define chunk where "chunk = take ChunkSize (drop p F)"
  define g where "g = (from_file s)\<lparr>pos := min (length F) (p + ChunkSize)\<rparr>"
  have i: "bytes (from_file s) = F" "\<not> failing (from_file s)" "p = totalIn s" "p \<le> length F"
    using assms(1,2) by (simp_all add: dec_inv_def source_inv_def p_def)
  have rd: "fread (from_file s) ChunkSize = (chunk, g)"
    using i by (simp add: fread_def chunk_def g_def p_def)
  have s1: "s1 = s\<lparr>next_in := chunk, from_file := g\<rparr>"
    using assms(3) rd by (simp add: read_chunk_def split: if_splits)
  have len: "length chunk = min ChunkSize (length F - p)" by (simp add: chunk_def)
  have pg: "pos g = p + length chunk" using i(4) len by (simp add: g_def)
  have "source_inv F s1"
    unfolding source_inv_def
    using i len by (simp add: s1 avail_in_def pg) (simp add: g_def chunk_def take_min_drop)
  then show ?thesis using assms(1) by (simp add: dec_inv_def) (simp add: s1)
qed

lemma rewind_window_dec:
  assumes "rewind_window s = Inr s1"
  shows "state s1 = state s" and "next_in s1 = next_in s" and "data_type s1 = data_type s"
    and "from_file s1 = from_file s" and "totalIn s1 = totalIn s" and "totalOut s1 = totalOut s"
    and "uncompressed s1 = uncompressed s" and "addIndex s1 = addIndex s"
    and "tables s1 = tables s" and "0 < avail_out s1"
  using assms
  by (auto simp: rewind_window_def Let_def WindowSize_def split: if_splits sum.splits prod.splits)

lemma build_inflate_dec:
  assumes ct: "decodes_blocks zl F U B R" and "source_inv F s" and "avail_in s \<noteq> 0"
    and "0 < avail_out s" and "B (state s) (data_type s) (totalIn s) (totalOut s)"
    and "uncompressed s = take (totalOut s) U"
    and "ret (build_inflate zl s) \<noteq> Z_NEED_DICT" and "ret (build_inflate zl s) \<noteq> Z_MEM_ERROR"
    and "ret (build_inflate zl s) \<noteq> Z_DATA_ERROR"
  shows "source_inv F (build_inflate zl s)"
    and "B (state (build_inflate zl s)) (data_type (build_inflate zl s))
           (totalIn (build_inflate zl s)) (totalOut (build_inflate zl s))"
    and "uncompressed (build_inflate zl s) = take (totalOut (build_inflate zl s)) U"
    and "ret (build_inflate zl s) = Z_STREAM_END \<Longrightarrow> totalOut (build_inflate zl s) = length U"
proof -
  define c where "c = totalIn s"
  define u where "u = totalOut s"
  define k where "k = avail_in s"
  define res where "res = inflate zl (state s) (take k (drop c F)) (avail_out s) Z_BLOCK"
  define written where "written = take (avail_out s) (produced res)"
  define s2 where "s2 = build_inflate zl s"
  have i: "bytes (from_file s) = F" "\<not> failing (from_file s)" "pos (from_file s) = c + k"
    "pos (from_file s) \<le> length F" "next_in s = take k (drop c F)"
    using assms(2) by (simp_all add: source_inv_def k_def c_def)
  have k0: "0 < k" using assms(3) by (simp add: k_def)
  have cF: "c < length F" using i(3,4) k0 by simp
  have lw: "length written \<le> avail_out s" by (simp add: written_def)
  have f: "state s2 = new_state res" "data_type s2 = new_data_type res" "ret s2 = ret_code res"
    "next_in s2 = drop (consumed res) (take k (drop c F))"
    "from_file s2 = from_file s"
    "uncompressed s2 = uncompressed s @ written"
    by (simp_all add: s2_def build_inflate_def Let_def res_def written_def i(5))
  have "k \<le> length F - c" using i(3,4) by simp
  then have a2: "avail_in s2 = k - consumed res" by (simp add: avail_in_def f(4) min_absorb2)
  have ti: "totalIn s2 = c + k - (k - consumed res)"
    using a2 by (simp add: s2_def build_inflate_def Let_def avail_in_def c_def k_def)
  have to: "totalOut s2 = u + length written"
    using lw by (simp add: s2_def build_inflate_def Let_def u_def res_def written_def i(5))
  from ct have "\<forall>z dt c u k out. B z dt c u \<longrightarrow> 0 < k \<longrightarrow> c < length F \<longrightarrow> 0 < out \<longrightarrow>
           (let r = inflate zl z (take k (drop c F)) out Z_BLOCK;
                written = take out (produced r)
            in ret_code r \<noteq> Z_NEED_DICT \<longrightarrow> ret_code r \<noteq> Z_MEM_ERROR \<longrightarrow> ret_code r \<noteq> Z_DATA_ERROR
             \<longrightarrow> consumed r \<le> min k (length F - c)
               \<and> written = take (length written) (drop u U)
               \<and> B (new_state r) (new_data_type r) (c + consumed r) (u + length written)
               \<and> (ret_code r = Z_STREAM_END \<longrightarrow> u + length written = length U))"
    by (simp add: decodes_blocks_def)
  note c0 = this [rule_format, OF assms(5) [folded c_def u_def] k0 cF assms(4), unfolded Let_def,
      folded res_def, folded written_def, rule_format,
      OF assms(7,8,9) [folded s2_def, unfolded f(3)]]
  have ctr: "consumed res \<le> k" "written = take (length written) (drop u U)"
    "B (new_state res) (new_data_type res) (c + consumed res) (u + length written)"
    "ret_code res = Z_STREAM_END \<longrightarrow> u + length written = length U"
    using c0 by simp_all
  have ti': "totalIn s2 = c + consumed res" using ti ctr(1) by simp
  have "source_inv F s2"
    unfolding source_inv_def a2 ti'
    using i ctr(1) by (simp add: f drop_take add.commute)
  then show "source_inv F (build_inflate zl s)" by (simp add: s2_def)
  show "B (state (build_inflate zl s)) (data_type (build_inflate zl s))
           (totalIn (build_inflate zl s)) (totalOut (build_inflate zl s))"
    using ctr(3) by (simp add: s2_def [symmetric] f ti' to)
  have "take u U @ written = take (u + length written) U"
    using ctr(2) by (metis take_add)
  then show "uncompressed (build_inflate zl s) = take (totalOut (build_inflate zl s)) U"
    using assms(6) by (simp add: s2_def [symmetric] f to u_def)
  show "ret (build_inflate zl s) = Z_STREAM_END \<Longrightarrow> totalOut (build_inflate zl s) = length U"
    using ctr(4) by (simp add: s2_def [symmetric] f to)
qed

lemma build_inflate_rows:
  "addIndex (build_inflate zl s) = addIndex s" "tables (build_inflate zl s) = tables s"
  by (simp_all add: build_inflate_def Let_def)

lemma resumable_row_end:
  "resumable_row F R r \<Longrightarrow> resumable_row F R (r\<lparr>uncompressedEndOffset := e\<rparr>)"
  by (simp add: resumable_row_def split: option.splits)

lemma flush_row_dec:
  assumes "resumable_row F R (addIndex s)" and "list_all (resumable_row F R) (AccessPoints (tables s))"
  shows "resumable_row F R (addIndex (flush_row s))"
    and "list_all (resumable_row F R) (AccessPoints (tables (flush_row s)))"
  using assms by (simp_all add: flush_row_def Let_def resumable_row_end)

lemma checkpoint_dec:
  assumes ct: "decodes_blocks zl F U B R" and "checkpoint zl s = Inr s'" and "dec_inv F U B R s"
  shows "dec_inv F U B R s'"
  using assms(2)
proof (cases rule: checkpoint_cases)
  case skip
  then show ?thesis using assms(3) by simp
next
  case (emit apWindow)
  define l where "l = log_checkpoint s"
  have lf: "state l = state s" "data_type l = data_type s" "totalIn l = totalIn s"
    "totalOut l = totalOut s" "next_in l = next_in s" "from_file l = from_file s"
    "uncompressed l = uncompressed s" "ret l = ret s"
    by (simp_all add: l_def log_checkpoint_def flush_row_def Let_def)
  have lr: "resumable_row F R (addIndex l)" "list_all (resumable_row F R) (AccessPoints (tables l))"
    using assms(3) flush_row_dec [of F R "s\<lparr>logged := logged s @ [(totalOut s, totalIn s)]\<rparr>"]
    by (simp_all add: l_def log_checkpoint_def Let_def dec_inv_def)
  have b: "B (state s) (data_type s) (totalIn s) (totalOut s)"
    and si: "source_inv F s"
    using assms(3) by (simp_all add: dec_inv_def)
  have "boundary (data_type s)"
    using emit(1,2) by (simp add: boundary_def endOfBlock_def lastBlockInStream_def)
  with ct b have r: "R (totalIn s) (data_type s AND 7) (totalOut s)"
    unfolding decodes_blocks_def by blast
  have "totalIn s \<le> length F" using si by (simp add: source_inv_def)
  with r have "resumable_row F R (addIndex (bind_checkpoint l apWindow))"
    by (simp add: resumable_row_def bind_checkpoint_def lf)
  moreover have "source_inv F s'"
    using si by (simp add: source_inv_def emit(5) l_def [symmetric] bind_checkpoint_def lf avail_in_def)
  ultimately show ?thesis
    using assms(3) lr
    by (simp add: dec_inv_def emit(5) l_def [symmetric])
       (simp add: bind_checkpoint_def lf)
qed

lemma inflate_step_dec:
  assumes ct: "decodes_blocks zl F U B R" and "inflate_step zl s = Inr s'"
    and "dec_inv F U B R s" and "avail_in s \<noteq> 0"
  shows "dec_inv F U B R s'"
proof -
  from assms(2) obtain s1 where s1: "rewind_window s = Inr s1"
    by (auto simp: inflate_step_def split: sum.splits)
  note k1 = rewind_window_dec [OF s1]
  define s2 where "s2 = build_inflate zl s1"
  have r2: "ret s2 \<noteq> Z_NEED_DICT" "ret s2 \<noteq> Z_MEM_ERROR" "ret s2 \<noteq> Z_DATA_ERROR"
    and or: "s' = s2 \<or> (ret s2 \<noteq> Z_STREAM_END \<and> checkpoint zl s2 = Inr s')"
    using assms(2) by (auto simp: inflate_step_def s1 s2_def Let_def split: if_splits)
  have i1: "source_inv F s1" "avail_in s1 \<noteq> 0"
    "B (state s1) (data_type s1) (totalIn s1) (totalOut s1)"
    "uncompressed s1 = take (totalOut s1) U"
    using assms(3,4) by (simp_all add: dec_inv_def source_inv_def avail_in_def k1)
  note bi = build_inflate_dec [OF ct i1(1,2) k1(10) i1(3,4) r2 [unfolded s2_def], folded s2_def]
  have "dec_inv F U B R s2"
    using bi assms(3) by (simp add: dec_inv_def s2_def build_inflate_rows k1)
  with or checkpoint_dec [OF ct _ this] show ?thesis by blast
qed

lemma build_decoded:
  assumes "build zl fuel fstat skip every hs f stack = Some (Inr s)"
    and ct: "decodes_blocks zl (bytes f) U B R" and "pos f = 0" and "\<not> failing f"
  shows "uncompressed s = U"
    and "list_all (resumable_row (bytes f) R) (AccessPoints (tables s))"
proof -
  from assms(1) obtain r z s0 where
    init: "inflateInit2 zl ZlibOrGzip = (r, z)"
    and run: "read_chunks zl fuel (start_build z skip every hs f stack) = Some (Inr s0)"
    and fin: "finish_build s0 = Inr s"
    by (rule build_cases)
  have "B z 0 0 0" using ct init by (simp add: decodes_blocks_def)
  then have start: "dec_inv (bytes f) U B R (start_build z skip every hs f stack)"
    using assms(3,4)
    by (simp add: dec_inv_def source_inv_def start_build_def avail_in_def resumable_row_def
        Z_STREAM_END_def)
  have "dec_inv (bytes f) U B R s0 \<and> ret s0 = Z_STREAM_END"
  proof (rule read_chunks_fed [where P = "dec_inv (bytes f) U B R", OF run start])
    show "avail_in (start_build z skip every hs f stack) = 0"
      by (simp add: start_build_def avail_in_def)
  next
    fix a b
    assume "dec_inv (bytes f) U B R a" and "avail_in a \<noteq> 0" and "inflate_step zl a = Inr b"
    then show "dec_inv (bytes f) U B R b" using inflate_step_dec [OF ct] by blast
  next
    fix a b
    assume "dec_inv (bytes f) U B R a" and "avail_in a = 0" and "read_chunk a = Inr b"
    then show "dec_inv (bytes f) U B R b" by (rule read_chunk_dec)
  qed
  then have d: "uncompressed s0 = U"
    and rows: "resumable_row (bytes f) R (addIndex s0)"
      "list_all (resumable_row (bytes f) R) (AccessPoints (tables s0))"
    by (simp_all add: dec_inv_def)
  show "uncompressed s = U" using finish_build_tables(3) [OF fin] d by simp
  show "list_all (resumable_row (bytes f) R) (AccessPoints (tables s))"
    using finish_build_tables(1) [OF fin] rows flush_row_dec [OF rows] by simp
qed



section \<open>Reading back the lines of a build\<close>

lemma lines_concat:
  "concat (map (\<lambda>l. l @ [0x0A]) (complete_lines cur bs)) @ rest_line cur bs = cur @ bs"
  by (induction bs arbitrary: cur) simp_all

lemma offsets_from_nth:
  "i < length ls \<Longrightarrow>
     offsets_from off ls ! i = off + sum_list (map (\<lambda>l. length l + 1) (take i ls))"
proof (induction ls arbitrary: off i)
  case Nil
  then show ?case by simp
next
  case (Cons l ls)
  then show ?case by (cases i) simp_all
qed

lemma length_rows_of [simp]: "length (rows_of n off ls) = length ls"
  by (induction ls arbitrary: n off) simp_all

lemma rows_of_nth:
  "i < length ls \<Longrightarrow>
     rows_of n off ls ! i =
       \<lparr>lo_line = int (n + i + 1), lo_offset = int (offsets_from off ls ! i),
        lo_length = int (length (ls ! i) + 1)\<rparr>"
proof (induction ls arbitrary: n off i)
  case Nil
  then show ?case by simp
next
  case (Cons l ls)
  show ?case
  proof (cases i)
    case 0
    then show ?thesis by simp
  next
    case (Suc j)
    then have "j < length ls" using Cons.prems by simp
    from Cons.IH [OF this] show ?thesis by (simp add: Suc)
  qed
qed

lemma line_at:
  "i < length ls \<Longrightarrow>
     take (length (ls ! i) + 1)
       (drop (sum_list (map (\<lambda>l. length l + 1) (take i ls)))
          (concat (map (\<lambda>l. l @ [0x0A]) ls) @ r))
     = ls ! i @ [0x0A]"
proof (induction ls arbitrary: i)
  case Nil
  then show ?case by simp
next
  case (Cons l ls)
  then show ?case by (cases i) simp_all
qed

lemma sum_take_le:
  assumes "i < length ls"
  shows "sum_list (map (\<lambda>l. length l + 1) (take i ls)) + length (ls ! i) + 1
       \<le> sum_list (map (\<lambda>l. length l + 1) ls)"
proof -
  have "sum_list (map (\<lambda>l. length l + 1) ls)
      = sum_list (map (\<lambda>l. length l + 1) (take (Suc i) ls))
        + sum_list (map (\<lambda>l. length l + 1) (drop (Suc i) ls))"
    by (metis append_take_drop_id map_append sum_list_append)
  then show ?thesis using assms by (simp add: take_Suc_conv_app_nth)
qed

lemma length_concat_lines:
  "length (concat (map (\<lambda>l. l @ [0x0A]) ls)) = sum_list (map (\<lambda>l. length l + 1) ls)"
  by (induction ls) simp_all

text \<open>The row of a line of a text, and where the text holds the line.\<close>

lemma line_row:
  assumes "i < length (split_lines U)"
  defines "l \<equiv> split_lines U ! i"
  defines "off \<equiv> offsets_from 0 (split_lines U) ! i"
  shows "rows_of 0 0 (split_lines U) ! i
           = \<lparr>lo_line = int (i + 1), lo_offset = int off, lo_length = int (length l + 1)\<rparr>"
    and "off + length l \<le> length U"
    and "take (length l) (drop off U) = l"
    and "take (length l + 1) (drop off U)
           = (if i < length (complete_lines [] U) then l @ [0x0A] else l)"
    and "off < length U"
proof -
  define cs where "cs = complete_lines [] U"
  define r where "r = rest_line [] U"
  define tl where "tl = (if r = [] then [] else [r])"
  have sl: "split_lines U = cs @ tl" by (simp add: split_lines_def cs_def tl_def r_def)
  have i: "i < length (cs @ tl)" using assms(1) by (simp add: sl)
  have off: "off = sum_list (map (\<lambda>l. length l + 1) (take i (cs @ tl)))"
    using offsets_from_nth [OF i, of 0] by (simp add: off_def sl)
  have U: "U = concat (map (\<lambda>l. l @ [0x0A]) cs) @ r"
    using lines_concat [of "[]" U] by (simp add: cs_def r_def)
  have lenU: "length U = sum_list (map (\<lambda>l. length l + 1) cs) + length r"
    using arg_cong [OF U, of length] by (simp add: length_concat_lines)
  show "rows_of 0 0 (split_lines U) ! i
           = \<lparr>lo_line = int (i + 1), lo_offset = int off, lo_length = int (length l + 1)\<rparr>"
    using assms(1) by (simp add: rows_of_nth off_def l_def del: of_nat_add of_nat_Suc)
  have "off + length l \<le> length U \<and> take (length l) (drop off U) = l
      \<and> take (length l + 1) (drop off U) = (if i < length cs then l @ [0x0A] else l)
      \<and> off < length U"
  proof (cases "i < length cs")
    case True
    then have l: "l = cs ! i" by (simp add: l_def sl nth_append)
    have o: "off = sum_list (map (\<lambda>l. length l + 1) (take i cs))"
      using True by (simp add: off)
    have t: "take (length l + 1) (drop off U) = l @ [0x0A]"
      using line_at [OF True, of r] U by (simp add: o l)
    have "take (length l) (take (length l + 1) (drop off U)) = l" by (simp only: t) simp
    then have "take (length l) (drop off U) = l" by (simp add: min_absorb1)
    moreover have "off + length l + 1 \<le> length U"
      using sum_take_le [OF True] lenU by (simp add: o l)
    ultimately show ?thesis using True t by simp
  next
    case False
    then have tl: "tl = [r]" and i': "i = length cs" and r: "r \<noteq> []"
      using i by (auto simp: tl_def split: if_splits)
    have l: "l = r" by (simp add: l_def sl tl i')
    have o: "off = sum_list (map (\<lambda>l. length l + 1) cs)" by (simp add: off i')
    have "drop off U = r"
      using U by (metis o length_concat_lines append_eq_conv_conj)
    then show ?thesis using False lenU r by (simp add: l o)
  qed
  then show "off + length l \<le> length U" and "take (length l) (drop off U) = l"
    and "take (length l + 1) (drop off U)
           = (if i < length (complete_lines [] U) then l @ [0x0A] else l)"
    and "off < length U"
    by (simp_all add: cs_def)
qed


lemma build_row_ok:
  assumes "build zl fuel fstat skip every hs f stack = Some (Inr s)"
    and "length stack = WindowSize"
  shows "list_all (row_ok zl stack (uncompressed s)) (AccessPoints (tables s))"
proof -
  from assms(1) obtain c z s0 where
    run: "read_chunks zl fuel (start_build z skip every hs f stack) = Some (Inr s0)"
    and fin: "finish_build s0 = Inr s"
    by (rule build_cases)
  have "rows_inv zl stack s0"
    using read_chunks_build_inv(1) [OF run assms(2)] by (simp add: build_inv_def)
  from finish_build_rows [OF fin this] show ?thesis .
qed

lemma resume_reads:
  assumes "resume_point zl F U D c b u" and "length stack = WindowSize"
    and "bytes g = F" and "\<not> failing g" and "c \<le> length F"
  shows "\<exists>z2 g2. resume zl g (int c) (int b) (snapshot stack U u) = Inr (z2, g2)
           \<and> D z2 c u \<and> bytes g2 = F \<and> \<not> failing g2 \<and> pos g2 = c"
proof -
  obtain r0 z0 where i0: "inflateInit2 zl Raw = (r0, z0)" by (cases "inflateInit2 zl Raw")
  define v where "v = uint (F ! (c - 1)) div 2 ^ nat (8 - int b)"
  obtain r1 z1 where i1: "(if b \<noteq> 0 then inflatePrime zl z0 (int b) v else (Z_OK, z0)) = (r1, z1)"
    by (cases "if b \<noteq> 0 then inflatePrime zl z0 (int b) v else (Z_OK, z0)")
  obtain r2 z2 where i2: "inflateSetDictionary zl z1 (snapshot stack U u) = (r2, z2)"
    by (cases "inflateSetDictionary zl z1 (snapshot stack U u)")
  from assms(1) have c0: "b \<noteq> 0 \<longrightarrow> 0 < c"
    and ok: "r0 = Z_OK" "r1 = Z_OK" "r2 = Z_OK" "D z2 c u"
    using assms(2) i0 i1 i2 unfolding resume_point_def v_def [symmetric]
    by (auto split: prod.splits)
  show ?thesis
  proof (cases "b = 0")
    case True
    then have "z1 = z0" using i1 by simp
    then have "resume zl g (int c) (int b) (snapshot stack U u) = Inr (z2, g\<lparr>pos := c\<rparr>)"
      using True assms(4) ok i0 i2
      by (simp add: resume_def seek_def prime_def X_def)
    then show ?thesis using ok(4) assms(3,4) by simp
  next
    case False
    then have c: "0 < c" using c0 by simp
    define g1 where "g1 = g\<lparr>pos := c - 1\<rparr>"
    have sk: "seek g (int c - 1) = Inr g1"
      using c assms(4) by (simp add: seek_def g1_def nat_diff_distrib)
    have "c - 1 < length F" using c assms(5) by simp
    then have gc: "fgetc g1 = (uint (F ! (c - 1)), g1\<lparr>pos := c\<rparr>)"
      using c assms(3,4) by (simp add: fgetc_def g1_def)
    have "0 \<le> uint (F ! (c - 1))" by simp
    then have "uint (F ! (c - 1)) \<noteq> - 1" by linarith
    then have "prime zl z0 g1 (int b) = Inr (z1, g1\<lparr>pos := c\<rparr>)"
      using False gc i1 ok by (simp add: prime_def X_def v_def)
    then have "resume zl g (int c) (int b) (snapshot stack U u) = Inr (z2, g1\<lparr>pos := c\<rparr>)"
      using False ok i0 i2 sk by (simp add: resume_def X_def)
    then show ?thesis using ok(4) assms(3,4) by (simp add: g1_def)
  qed
qed

lemma print_reads:
  assumes raw: "decodes_raw zl F U D"
    and rp: "resume_point zl F U D c b u"
    and ap: "uncompressedOffset ap = Some (int u)" "compressedOffset ap = Some (int c)"
      "bitOffset ap = Some (int b)" "window_blob ap = Some blob"
    and blob: "uncompress zl blob WindowSize = (Z_OK, snapshot stack U u)"
    and st: "length stack = WindowSize" and uU: "u \<le> length U" and cF: "c \<le> length F"
    and g: "bytes g = F" "\<not> failing g"
    and lo: "lo_offset lo = int off" "lo_length lo = int len"
    and len: "u \<le> off" "0 < len" "len < 2 ^ 32" "off \<le> length U"
    and fuel: "length F + off + len < fuel"
  shows "print zl fuel g (lo, ap)
       = Some (Inr (lo_line lo, int off, take len (drop off U), int len - 1))"
proof -
  define win where "win = snapshot stack U u"
  have lw: "length win = WindowSize" using st uU by (simp add: win_def length_snapshot)
  then have w: "uncompress_window zl (columnBlob (window_blob ap)) WindowSize = Inr win"
    using blob by (simp add: uncompress_window_def ap columnBlob_def X_def win_def)
  from resume_reads [OF rp st g cF] obtain z2 g2 where
    r: "resume zl g (int c) (int b) win = Inr (z2, g2)" and d: "D z2 c u"
    and g2: "bytes g2 = F" "\<not> failing g2" "pos g2 = c"
    unfolding win_def by blast
  define s0 :: "'a print_vars" where
    "s0 = \<lparr>state = z2, next_in = [], avail_out = 0, data_type = 0, compressed = g2,
           numToSkip = int off - int u, skipping = True, lineBuf = []\<rparr>"
  have c0: "cpos s0 = c" by (simp add: cpos_def s0_def avail_in_def g2)
  have i0: "input_inv F s0"
    unfolding input_inv_def c0 using g2 cF by (simp add: s0_def avail_in_def)
  have n0: "numToSkip s0 = int (off - u)" using len(1) by (simp add: s0_def of_nat_diff)
  have d0: "D (state s0) (cpos s0) (off - (off - u))" using d len(1) by (simp add: c0) (simp add: s0_def)
  have m: "length F - cpos s0 + (off - u) + len < fuel" using fuel by (simp add: c0)
  from skip_loop_reads [OF raw len(2,3,4) i0 _ _ n0 _ d0 m] obtain s' where
    "skip_loop zl (int len) fuel s0 = Some (Inr s')" "lineBuf s' = take len (drop off U)"
    by (auto simp: s0_def)
  then show ?thesis
    using w r by (simp add: print_def Let_def ap columnInt64_def lo s0_def [symmetric])
qed

lemma getLine_reads:
  assumes raw: "decodes_raw zl (bytes g) U D" and g: "\<not> failing g"
    and q: "lineQuery db (to_int64 n) = Some (lo, ap)"
    and ap: "resumable_at zl (bytes g) U D ap"
    and lo: "lo_offset lo = int off" "lo_length lo = int len"
    and len: "0 < len" "len < 2 ^ 32" "off \<le> length U"
    and fuel: "length (bytes g) + off + len < fuel"
  shows "getLine zl fuel db g n sink
       = Some (Inr (sink @ [(to_int64 n, int off, take len (drop off U), int len - 1)]))"
proof -
  from ap obtain u c b blob stack where
    r: "uncompressedOffset ap = Some (int u)" "compressedOffset ap = Some (int c)"
      "bitOffset ap = Some (int b)" "window_blob ap = Some blob"
    and b: "u \<le> length U" "c \<le> length (bytes g)" "length stack = WindowSize"
    and w: "uncompress zl blob WindowSize = (Z_OK, snapshot stack U u)"
    and rp: "resume_point zl (bytes g) U D c b u"
    unfolding resumable_at_def by blast
  note s = lineQuery_Some [OF q]
  have "u \<le> off" using s(3) by (simp add: covers_def r lo split: option.splits)
  from print_reads [OF raw rp r w b(3,1,2) refl g lo this len fuel]
  show ?thesis using q s(4) by (simp add: getLine_def)
qed

text \<open>
  Claim C5. Let the row that \<^verbatim>\<open>lineQuery_\<close> finds in \<^verbatim>\<open>LineOffsets\<close> be the row of a line of the
  text \<open>U\<close> (number, offset of its first byte, its length and one more), let the row it finds
  in \<^verbatim>\<open>AccessPoints\<close> be one from which \<open>U\<close> can be read, and let zlib decode the raw stream.
  Then \<^verbatim>\<open>getLine\<close> returns without an exception, whenever the bound on its loops is above
  the sizes of file and text, and the sink has received exactly one call: the line number
  asked for, the offset of the line in the text, a buffer that holds the bytes of the line,
  followed by its \<open>0x0A\<close> when it has one, and the \<^verbatim>\<open>length\<close> of the row minus one. That is the
  length of the line: what the sink sees is the line, and the \<open>0x0A\<close> is not part of it.
\<close>

theorem getLine_sink_call:
  assumes "decodes_raw zl (bytes g) U D" and "\<not> failing g"
    and "lineQuery db (to_int64 n) = Some (lo, ap)"
    and "resumable_at zl (bytes g) U D ap"
    and "0 < i" and "i \<le> length (split_lines U)"
    and "lo = rows_of 0 0 (split_lines U) ! (i - 1)"
    and "length (split_lines U ! (i - 1)) + 1 < 2 ^ 32"
    and "length (bytes g) + length U + 1 < fuel"
  shows "getLine zl fuel db g n sink
           = Some (Inr (sink @ [(to_int64 n, lo_offset lo,
                                 (if i \<le> length (complete_lines [] U)
                                  then split_lines U ! (i - 1) @ [0x0A]
                                  else split_lines U ! (i - 1)),
                                 lo_length lo - 1)]))
       \<and> to_int64 n = int i
       \<and> take (length (split_lines U ! (i - 1))) (drop (nat (lo_offset lo)) U)
           = split_lines U ! (i - 1)
       \<and> lo_length lo - 1 = int (length (split_lines U ! (i - 1)))
       \<and> visible (to_int64 n, lo_offset lo,
                    (if i \<le> length (complete_lines [] U)
                     then split_lines U ! (i - 1) @ [0x0A]
                     else split_lines U ! (i - 1)),
                    lo_length lo - 1)
           = split_lines U ! (i - 1)"
proof -
  define j where "j = i - 1"
  define l where "l = split_lines U ! j"
  define off where "off = offsets_from 0 (split_lines U) ! j"
  have j: "j < length (split_lines U)" "i = j + 1" using assms(5,6) by (simp_all add: j_def)
  note lr = line_row [OF j(1), folded l_def off_def]
  have lo: "lo = \<lparr>lo_line = int i, lo_offset = int off, lo_length = int (length l + 1)\<rparr>"
    using lr(1) assms(7) by (simp add: j_def [symmetric] j(2))
  have n: "to_int64 n = int i"
    using lineQuery_Some(4) [OF assms(3)] by (simp add: lo)
  have b: "length l + 1 < 2 ^ 32" using assms(8) by (simp add: l_def j_def)
  have f: "length (bytes g) + off + (length l + 1) < fuel" using assms(9) lr(2) by simp
  have "off \<le> length U" using lr(2) by simp
  from getLine_reads [OF assms(1,2,3,4) _ _ _ b this f, of sink]
  have "getLine zl fuel db g n sink
      = Some (Inr (sink @ [(to_int64 n, int off, take (length l + 1) (drop off U), int (length l))]))"
    by (simp add: lo)
  moreover have "(i \<le> length (complete_lines [] U)) = (j < length (complete_lines [] U))"
    using j(2) by auto
  ultimately show ?thesis
    using lr(3,4) n
    unfolding j_def [symmetric] l_def [symmetric]
    by (simp add: lo visible_def)
qed




lemma build_resumable:
  assumes "build zl fuel' fstat skip every hs f stack = Some (Inr s)"
    and "length stack = WindowSize" and "pos f = 0" and "\<not> failing f"
    and "decodes_blocks zl (bytes f) U B (resume_point zl (bytes f) U D)"
    and "window_roundtrip zl"
    and "ap \<in> set (AccessPoints (tables s))" and "uncompressedOffset ap = Some ui"
  shows "resumable_at zl (bytes f) U D ap"
proof -
  note dec = build_decoded [OF assms(1,5,3,4)]
  have "resumable_row (bytes f) (resume_point zl (bytes f) U D) ap"
    using dec(2) assms(7) by (simp add: list_all_iff)
  then obtain c b where
    cb: "compressedOffset ap = Some (int c)" "bitOffset ap = Some (int b)"
    and cF: "c \<le> length (bytes f)" and u0: "0 \<le> ui"
    and rp: "resume_point zl (bytes f) U D c b (nat ui)"
    by (auto simp: resumable_row_def assms(8))
  have "row_ok zl stack U ap"
    using build_row_ok [OF assms(1,2)] assms(7) by (simp add: list_all_iff dec(1))
  then obtain blob where
    uU: "nat ui \<le> length U" and wb: "window_blob ap = Some blob"
    and blob: "compress2 zl (snapshot stack U (nat ui)) (compressBound zl WindowSize) 9 = (Z_OK, blob)"
    by (auto simp: row_ok_def assms(8))
  have "length (snapshot stack U (nat ui)) = WindowSize"
    using assms(2) uU by (rule length_snapshot)
  with assms(6) blob have "uncompress zl blob WindowSize = (Z_OK, snapshot stack U (nat ui))"
    unfolding window_roundtrip_def by blast
  moreover have "uncompressedOffset ap = Some (int (nat ui))" using assms(8) u0 by simp
  ultimately show ?thesis
    unfolding resumable_at_def using cb wb uU cF assms(2) rp by blast
qed


section \<open>The small codec on the file of two lines\<close>

lemma toy_payload:
  assumes "0 < rem" and "inp \<noteq> []" and "0 < out"
  obtains m where "0 < m" and "m \<le> rem" and "m \<le> length inp" and "m \<le> out"
    and "toy_inflate (wrap, Payload final rem) inp out flush =
           \<lparr>ret_code = 0, consumed = m, produced = take m inp,
            new_data_type = (if rem - m = 0 then 128 else 0) + (if final then 64 else 0),
            new_state = (wrap, if rem - m \<noteq> 0 then Payload final (rem - m)
                               else if \<not> final then Head
                               else if wrap then Trailer else Done)\<rparr>"
proof -
  define m where "m = min rem (min (length inp) out)"
  have "0 < m" "m \<le> rem" "m \<le> length inp" "m \<le> out"
    using assms by (simp_all add: m_def)
  moreover have "toy_inflate (wrap, Payload final rem) inp out flush =
           \<lparr>ret_code = 0, consumed = m, produced = take m inp,
            new_data_type = (if rem - m = 0 then 128 else 0) + (if final then 64 else 0),
            new_state = (wrap, if rem - m \<noteq> 0 then Payload final (rem - m)
                               else if \<not> final then Head
                               else if wrap then Trailer else Done)\<rparr>"
    using \<open>0 < m\<close> unfolding m_def by (simp add: toy_inflate_def Let_def)
  ultimately show ?thesis by (rule that)
qed

lemma upto_2: "0 < m \<Longrightarrow> m \<le> 2 \<Longrightarrow> m = 1 \<or> m = (2::nat)"
  by arith

lemma take_take_le: "m \<le> length (take k xs) \<Longrightarrow> take m (take k xs) = take m xs"
  by (simp add: min_def split: if_splits)

lemmas toy_tables =
  toy_states_def toy_types_def toy_outs_def tail_text_def tail_file_def

lemma inflate_toy: "inflate toy_zlib = toy_inflate"
  by (simp add: toy_zlib_def)

lemma toy_payload_call:
  assumes "0 < rem" and "0 < k" and "0 < out" and "c < length F"
  obtains m where "0 < m" and "m \<le> rem" and "m \<le> min k (length F - c)"
    and "inflate toy_zlib (wrap, Payload final rem) (take k (drop c F)) out flush =
           \<lparr>ret_code = 0, consumed = m, produced = take m (drop c F),
            new_data_type = (if rem - m = 0 then 128 else 0) + (if final then 64 else 0),
            new_state = (wrap, if rem - m \<noteq> 0 then Payload final (rem - m)
                               else if \<not> final then Head
                               else if wrap then Trailer else Done)\<rparr>"
    and "m \<le> out"
proof -
  have ne: "take k (drop c F) \<noteq> []" using assms(2,4) by simp
  from toy_payload [OF assms(1) ne assms(3), of wrap final flush] obtain m where
    m: "0 < m" "m \<le> rem" "m \<le> length (take k (drop c F))" "m \<le> out"
    "toy_inflate (wrap, Payload final rem) (take k (drop c F)) out flush =
           \<lparr>ret_code = 0, consumed = m, produced = take m (take k (drop c F)),
            new_data_type = (if rem - m = 0 then 128 else 0) + (if final then 64 else 0),
            new_state = (wrap, if rem - m \<noteq> 0 then Payload final (rem - m)
                               else if \<not> final then Head
                               else if wrap then Trailer else Done)\<rparr>"
    by blast
  have t: "take m (take k (drop c F)) = take m (drop c F)" using m(3) by (rule take_take_le)
  show ?thesis
  proof (rule that [OF m(1,2)])
    show "m \<le> min k (length F - c)" using m(3) by simp
    show "inflate toy_zlib (wrap, Payload final rem) (take k (drop c F)) out flush =
           \<lparr>ret_code = 0, consumed = m, produced = take m (drop c F),
            new_data_type = (if rem - m = 0 then 128 else 0) + (if final then 64 else 0),
            new_state = (wrap, if rem - m \<noteq> 0 then Payload final (rem - m)
                               else if \<not> final then Head
                               else if wrap then Trailer else Done)\<rparr>"
      unfolding inflate_toy using m(5) [unfolded t] .
    show "m \<le> out" by (rule m(4))
  qed
qed

lemmas toy_codes =
  Z_NEED_DICT_def Z_MEM_ERROR_def Z_DATA_ERROR_def Z_STREAM_END_def Z_OK_def

section \<open>The calls of the small codec on that file\<close>

lemma hd_take_drop:
  "0 < k \<Longrightarrow> c < length F \<Longrightarrow> take k (drop c F) = F ! c # take (k - 1) (drop (Suc c) F)"
  by (cases k) (simp_all add: Cons_nth_drop_Suc [symmetric])

lemma toy_header_call:
  assumes "0 < k" and "c < length F"
  shows "inflate toy_zlib (wrap, Header) (take k (drop c F)) out flush =
     \<lparr>ret_code = 0, consumed = 1, produced = [], new_data_type = 128, new_state = (wrap, Head)\<rparr>"
  by (simp add: inflate_toy toy_inflate_def hd_take_drop [OF assms])

lemma toy_head_call:
  assumes "0 < k" and "c < length F"
  shows "inflate toy_zlib (wrap, Head) (take k (drop c F)) out flush =
     \<lparr>ret_code = 0, consumed = 1, produced = [],
      new_data_type = (if odd (unat (F ! c)) then 64 else 0),
      new_state = (wrap, Payload (odd (unat (F ! c))) (unat (F ! c) div 2))\<rparr>"
  by (simp add: inflate_toy toy_inflate_def hd_take_drop [OF assms])

lemma toy_trailer_call:
  assumes "0 < k" and "c < length F"
  shows "inflate toy_zlib (wrap, Trailer) (take k (drop c F)) out flush =
     \<lparr>ret_code = 1, consumed = 1, produced = [], new_data_type = 64, new_state = (wrap, Done)\<rparr>"
  by (simp add: inflate_toy toy_inflate_def hd_take_drop [OF assms])

lemma toy_done_call:
  "inflate toy_zlib (wrap, Done) inp out flush =
     \<lparr>ret_code = 1, consumed = 0, produced = [], new_data_type = 64, new_state = (wrap, Done)\<rparr>"
  by (simp add: inflate_toy toy_inflate_def)

lemma toy_raw_call:
  assumes d: "toy_D z c u" and k: "0 < k" and out: "0 < out"
  defines "r \<equiv> inflate toy_zlib z (take k (drop c (bytes tail_file))) out Z_NO_FLUSH"
  defines "written \<equiv> take out (produced r)"
  shows "ret_code r \<noteq> Z_NEED_DICT \<and> ret_code r \<noteq> Z_MEM_ERROR \<and> ret_code r \<noteq> Z_DATA_ERROR
       \<and> consumed r \<le> min k (length (bytes tail_file) - c)
       \<and> written = take (length written) (drop u tail_text)
       \<and> toy_D (new_state r) (c + consumed r) (u + length written)
       \<and> (0 < consumed r \<or> written \<noteq> [] \<or> ret_code r = Z_STREAM_END)
       \<and> (ret_code r = Z_STREAM_END \<longrightarrow> u + length written = length tail_text)"
proof -
  from d have "1 \<le> c" "c \<le> 6" by (simp_all add: toy_D_def)
  then have "c = 1 \<or> c = 2 \<or> c = 3 \<or> c = 4 \<or> c = 5 \<or> c = 6"
    by arith
  then show ?thesis
  proof (elim disjE)
    assume c: "c = 1"
    have z: "z = (False, Head)" "u = 0"
      using d by (simp_all add: c toy_D_def toy_tables)
    have cF: "c < length (bytes tail_file)" by (simp add: c tail_file_def)
    show ?thesis
      using k unfolding written_def r_def z toy_head_call [OF k cF]
      by (simp add: c z toy_D_def toy_tables toy_codes)
  next
    assume c: "c = 2"
    have z: "z = (False, Payload False 2)" "u = 0"
      using d by (simp_all add: c toy_D_def toy_tables)
    have cF: "c < length (bytes tail_file)" by (simp add: c tail_file_def)
    have "0 < (2::nat)" by simp
    then obtain m where m: "0 < m" "m \<le> 2" "m \<le> min k (length (bytes tail_file) - c)"
      and r: "r = \<lparr>ret_code = 0, consumed = m, produced = take m (drop c (bytes tail_file)),
              new_data_type = (if 2 - m = 0 then 128 else 0) + (if False then 64 else 0),
              new_state = (False, if 2 - m \<noteq> 0 then Payload False (2 - m)
                                 else if \<not> False then Head
                                 else if False then Trailer else Done)\<rparr>"
      and w: "m \<le> out"
      unfolding r_def z by (rule toy_payload_call [OF _ k out cF])
    have wr: "written = take m (drop c (bytes tail_file))"
      using w by (simp add: written_def r min_absorb2)
    from upto_2 [OF m(1,2)] show ?thesis
      using m(3) unfolding wr
      by (elim disjE) (simp_all add: r c z toy_D_def toy_tables toy_codes)
  next
    assume c: "c = 3"
    have z: "z = (False, Payload False 1)" "u = 1"
      using d by (simp_all add: c toy_D_def toy_tables)
    have cF: "c < length (bytes tail_file)" by (simp add: c tail_file_def)
    have "0 < (1::nat)" by simp
    then obtain m where m: "0 < m" "m \<le> 1" "m \<le> min k (length (bytes tail_file) - c)"
      and r: "r = \<lparr>ret_code = 0, consumed = m, produced = take m (drop c (bytes tail_file)),
              new_data_type = (if 1 - m = 0 then 128 else 0) + (if False then 64 else 0),
              new_state = (False, if 1 - m \<noteq> 0 then Payload False (1 - m)
                                 else if \<not> False then Head
                                 else if False then Trailer else Done)\<rparr>"
      and w: "m \<le> out"
      unfolding r_def z by (rule toy_payload_call [OF _ k out cF])
    have wr: "written = take m (drop c (bytes tail_file))"
      using w by (simp add: written_def r min_absorb2)
    from m(1,2) have "m = 1" by simp
    then show ?thesis
      using m(3) unfolding wr
      by (simp add: r c z toy_D_def toy_tables toy_codes)
  next
    assume c: "c = 4"
    have z: "z = (False, Head)" "u = 2"
      using d by (simp_all add: c toy_D_def toy_tables)
    have cF: "c < length (bytes tail_file)" by (simp add: c tail_file_def)
    show ?thesis
      using k unfolding written_def r_def z toy_head_call [OF k cF]
      by (simp add: c z toy_D_def toy_tables toy_codes)
  next
    assume c: "c = 5"
    have z: "z = (False, Payload True 1)" "u = 2"
      using d by (simp_all add: c toy_D_def toy_tables)
    have cF: "c < length (bytes tail_file)" by (simp add: c tail_file_def)
    have "0 < (1::nat)" by simp
    then obtain m where m: "0 < m" "m \<le> 1" "m \<le> min k (length (bytes tail_file) - c)"
      and r: "r = \<lparr>ret_code = 0, consumed = m, produced = take m (drop c (bytes tail_file)),
              new_data_type = (if 1 - m = 0 then 128 else 0) + (if True then 64 else 0),
              new_state = (False, if 1 - m \<noteq> 0 then Payload True (1 - m)
                                 else if \<not> True then Head
                                 else if False then Trailer else Done)\<rparr>"
      and w: "m \<le> out"
      unfolding r_def z by (rule toy_payload_call [OF _ k out cF])
    have wr: "written = take m (drop c (bytes tail_file))"
      using w by (simp add: written_def r min_absorb2)
    from m(1,2) have "m = 1" by simp
    then show ?thesis
      using m(3) unfolding wr
      by (simp add: r c z toy_D_def toy_tables toy_codes)
  next
    assume c: "c = 6"
    have z: "z = (False, Done)" "u = 3"
      using d by (simp_all add: c toy_D_def toy_tables)
    have cF: "c < length (bytes tail_file)" by (simp add: c tail_file_def)
    show ?thesis
      using k unfolding written_def r_def z toy_done_call
      by (simp add: c z toy_D_def toy_tables toy_codes)
  qed
qed

lemma toy_block_call:
  assumes d: "toy_B z dt c u" and k: "0 < k" and out: "0 < out" and "c < length (bytes tail_file)"
  defines "r \<equiv> inflate toy_zlib z (take k (drop c (bytes tail_file))) out Z_BLOCK"
  defines "written \<equiv> take out (produced r)"
  shows "consumed r \<le> min k (length (bytes tail_file) - c)
       \<and> written = take (length written) (drop u tail_text)
       \<and> toy_B (new_state r) (new_data_type r) (c + consumed r) (u + length written)
       \<and> (ret_code r = Z_STREAM_END \<longrightarrow> u + length written = length tail_text)"
proof -
  from assms(4) have "c \<le> 6" by (simp add: tail_file_def)
  then have "c = 0 \<or> c = 1 \<or> c = 2 \<or> c = 3 \<or> c = 4 \<or> c = 5 \<or> c = 6"
    by arith
  then show ?thesis
  proof (elim disjE)
    assume c: "c = 0"
    have z: "z = (True, Header)" "u = 0"
      using d by (simp_all add: c toy_B_def toy_tables)
    have cF: "c < length (bytes tail_file)" by (simp add: c tail_file_def)
    show ?thesis
      using k unfolding written_def r_def z toy_header_call [OF k cF]
      by (simp add: c z toy_B_def toy_tables toy_codes)
  next
    assume c: "c = 1"
    have z: "z = (True, Head)" "u = 0"
      using d by (simp_all add: c toy_B_def toy_tables)
    have cF: "c < length (bytes tail_file)" by (simp add: c tail_file_def)
    show ?thesis
      using k unfolding written_def r_def z toy_head_call [OF k cF]
      by (simp add: c z toy_B_def toy_tables toy_codes)
  next
    assume c: "c = 2"
    have z: "z = (True, Payload False 2)" "u = 0" "dt = 0"
      using d by (simp_all add: c toy_B_def toy_tables)
    have cF: "c < length (bytes tail_file)" by (simp add: c tail_file_def)
    have "0 < (2::nat)" by simp
    then obtain m where m: "0 < m" "m \<le> 2" "m \<le> min k (length (bytes tail_file) - c)"
      and r: "r = \<lparr>ret_code = 0, consumed = m, produced = take m (drop c (bytes tail_file)),
              new_data_type = (if 2 - m = 0 then 128 else 0) + (if False then 64 else 0),
              new_state = (True, if 2 - m \<noteq> 0 then Payload False (2 - m)
                                 else if \<not> False then Head
                                 else if True then Trailer else Done)\<rparr>"
      and w: "m \<le> out"
      unfolding r_def z by (rule toy_payload_call [OF _ k out cF])
    have wr: "written = take m (drop c (bytes tail_file))"
      using w by (simp add: written_def r min_absorb2)
    from upto_2 [OF m(1,2)] show ?thesis
      using m(3) unfolding wr
      by (elim disjE) (simp_all add: r c z toy_B_def toy_tables toy_codes)
  next
    assume c: "c = 3"
    have z: "z = (True, Payload False 1)" "u = 1" "dt = 0"
      using d by (simp_all add: c toy_B_def toy_tables)
    have cF: "c < length (bytes tail_file)" by (simp add: c tail_file_def)
    have "0 < (1::nat)" by simp
    then obtain m where m: "0 < m" "m \<le> 1" "m \<le> min k (length (bytes tail_file) - c)"
      and r: "r = \<lparr>ret_code = 0, consumed = m, produced = take m (drop c (bytes tail_file)),
              new_data_type = (if 1 - m = 0 then 128 else 0) + (if False then 64 else 0),
              new_state = (True, if 1 - m \<noteq> 0 then Payload False (1 - m)
                                 else if \<not> False then Head
                                 else if True then Trailer else Done)\<rparr>"
      and w: "m \<le> out"
      unfolding r_def z by (rule toy_payload_call [OF _ k out cF])
    have wr: "written = take m (drop c (bytes tail_file))"
      using w by (simp add: written_def r min_absorb2)
    from m(1,2) have "m = 1" by simp
    then show ?thesis
      using m(3) unfolding wr
      by (simp add: r c z toy_B_def toy_tables toy_codes)
  next
    assume c: "c = 4"
    have z: "z = (True, Head)" "u = 2"
      using d by (simp_all add: c toy_B_def toy_tables)
    have cF: "c < length (bytes tail_file)" by (simp add: c tail_file_def)
    show ?thesis
      using k unfolding written_def r_def z toy_head_call [OF k cF]
      by (simp add: c z toy_B_def toy_tables toy_codes)
  next
    assume c: "c = 5"
    have z: "z = (True, Payload True 1)" "u = 2" "dt = 64"
      using d by (simp_all add: c toy_B_def toy_tables)
    have cF: "c < length (bytes tail_file)" by (simp add: c tail_file_def)
    have "0 < (1::nat)" by simp
    then obtain m where m: "0 < m" "m \<le> 1" "m \<le> min k (length (bytes tail_file) - c)"
      and r: "r = \<lparr>ret_code = 0, consumed = m, produced = take m (drop c (bytes tail_file)),
              new_data_type = (if 1 - m = 0 then 128 else 0) + (if True then 64 else 0),
              new_state = (True, if 1 - m \<noteq> 0 then Payload True (1 - m)
                                 else if \<not> True then Head
                                 else if True then Trailer else Done)\<rparr>"
      and w: "m \<le> out"
      unfolding r_def z by (rule toy_payload_call [OF _ k out cF])
    have wr: "written = take m (drop c (bytes tail_file))"
      using w by (simp add: written_def r min_absorb2)
    from m(1,2) have "m = 1" by simp
    then show ?thesis
      using m(3) unfolding wr
      by (simp add: r c z toy_B_def toy_tables toy_codes)
  next
    assume c: "c = 6"
    have z: "z = (True, Trailer)" "u = 3"
      using d by (simp_all add: c toy_B_def toy_tables)
    have cF: "c < length (bytes tail_file)" by (simp add: c tail_file_def)
    show ?thesis
      using k unfolding written_def r_def z toy_trailer_call [OF k cF]
      by (simp add: c z toy_B_def toy_tables toy_codes)
  qed
qed

section \<open>The small codec decodes that file\<close>

lemma toy_decodes_raw: "decodes_raw toy_zlib (bytes tail_file) tail_text toy_D"
  unfolding decodes_raw_def
proof (intro conjI allI impI)
  fix z c u
  assume d: "toy_D z c u"
  then have "1 \<le> c" "c \<le> 6" by (simp_all add: toy_D_def)
  then have "c = 1 \<or> c = 2 \<or> c = 3 \<or> c = 4 \<or> c = 5 \<or> c = 6"
    by arith
  then show "u \<le> length tail_text" using d by (elim disjE) (simp_all add: toy_D_def toy_tables)
  show "c < length (bytes tail_file)" using \<open>c \<le> 6\<close> by (simp add: tail_file_def)
next
  fix z c u and k out :: nat
  assume "toy_D z c u" and "0 < k" and "c < length (bytes tail_file)" and "0 < out"
  from toy_raw_call [OF this(1,2,4)]
  show "let r = inflate toy_zlib z (take k (drop c (bytes tail_file))) out Z_NO_FLUSH;
            written = take out (produced r)
        in ret_code r \<noteq> Z_NEED_DICT \<and> ret_code r \<noteq> Z_MEM_ERROR \<and> ret_code r \<noteq> Z_DATA_ERROR
         \<and> consumed r \<le> min k (length (bytes tail_file) - c)
         \<and> written = take (length written) (drop u tail_text)
         \<and> toy_D (new_state r) (c + consumed r) (u + length written)
         \<and> (0 < consumed r \<or> written \<noteq> [] \<or> ret_code r = Z_STREAM_END)
         \<and> (ret_code r = Z_STREAM_END \<longrightarrow> u + length written = length tail_text)"
    unfolding Let_def .
qed

lemma toy_resume_points:
  assumes "toy_B z dt c u" and "boundary dt"
  shows "resume_point toy_zlib (bytes tail_file) tail_text toy_D c (dt AND 7) u"
proof -
  from assms(1) have "c \<le> 7" by (simp add: toy_B_def)
  then have "c = 0 \<or> c = 1 \<or> c = 2 \<or> c = 3 \<or> c = 4 \<or> c = 5 \<or> c = 6 \<or> c = 7"
    by arith
  then have "(c = 1 \<and> u = 0 \<or> c = 4 \<and> u = 2) \<and> dt = 128"
    using assms by (elim disjE) (simp_all add: toy_B_def toy_tables boundary_def)
  then show ?thesis
    by (auto simp: resume_point_def toy_zlib_def toy_D_def toy_tables Raw_def Z_OK_def)
qed

lemma toy_decodes_blocks:
  "decodes_blocks toy_zlib (bytes tail_file) tail_text toy_B
     (resume_point toy_zlib (bytes tail_file) tail_text toy_D)"
  unfolding decodes_blocks_def
proof (intro conjI allI impI)
  show "toy_B (snd (inflateInit2 toy_zlib ZlibOrGzip)) 0 0 0"
    by (simp add: toy_B_def toy_tables toy_zlib_def ZlibOrGzip_def Raw_def)
next
  fix z dt c u
  assume b: "toy_B z dt c u"
  then have "c \<le> 7" by (simp add: toy_B_def)
  then have "c = 0 \<or> c = 1 \<or> c = 2 \<or> c = 3 \<or> c = 4 \<or> c = 5 \<or> c = 6 \<or> c = 7"
    by arith
  then show "u \<le> length tail_text" using b by (elim disjE) (simp_all add: toy_B_def toy_tables)
  assume "boundary dt"
  with b show "resume_point toy_zlib (bytes tail_file) tail_text toy_D c (dt AND 7) u"
    by (rule toy_resume_points)
next
  fix z dt c u and k out :: nat
  assume "toy_B z dt c u" and "0 < k" and "c < length (bytes tail_file)" and "0 < out"
  note call = toy_block_call [OF this(1,2,4,3)]
  show "let r = inflate toy_zlib z (take k (drop c (bytes tail_file))) out Z_BLOCK;
            written = take out (produced r)
        in ret_code r \<noteq> Z_NEED_DICT \<longrightarrow> ret_code r \<noteq> Z_MEM_ERROR \<longrightarrow> ret_code r \<noteq> Z_DATA_ERROR
         \<longrightarrow> consumed r \<le> min k (length (bytes tail_file) - c)
           \<and> written = take (length written) (drop u tail_text)
           \<and> toy_B (new_state r) (new_data_type r) (c + consumed r) (u + length written)
           \<and> (ret_code r = Z_STREAM_END \<longrightarrow> u + length written = length tail_text)"
    unfolding Let_def using call by blast
qed

lemma toy_window_roundtrip: "window_roundtrip toy_zlib"
  by (simp add: window_roundtrip_def toy_zlib_def)

section \<open>Reading back a line: examples\<close>

lemma toy_build_tail:
  "build toy_zlib 9 (Some \<lparr>st_size = 7, st_mtime = 5\<rparr>) 0 1 [] tail_file zero_window
   = Some (Inr tail_built)"
  by (simp add: toy_build_defs tail_built_def tail_db_def tail_file_def numeral_2_eq_2 [symmetric])

lemma tail_lines:
  "split_lines tail_text = [[97], [98]]" "complete_lines [] tail_text = [[97]]"
  "length tail_text = 3" "length (bytes tail_file) = 7"
  by (simp_all add: split_lines_def tail_text_def tail_file_def)

theorem getLine_sink_call_witness:
  "\<not> failing tail_file
   \<and> lineQuery tail_db (to_int64 1) = Some (LineOffsets tail_db ! 0, AccessPoints tail_db ! 0)
   \<and> split_lines tail_text = [[97], [98]] \<and> complete_lines [] tail_text = [[97]]
   \<and> LineOffsets tail_db ! 0 = rows_of 0 0 (split_lines tail_text) ! 0
   \<and> getLine toy_zlib 12 tail_db tail_file 1 [] = Some (Inr [(1, 0, [97, 10], 1)])
   \<and> visible (1, 0, [97, 10], 1) = [97]"
proof -
  have a: "length zero_window = WindowSize" by (simp add: zero_window_def)
  have f: "pos tail_file = 0" "\<not> failing tail_file" by (simp_all add: tail_file_def)
  have t: "to_int64 1 = 1" "to_int64 (Suc 0) = 1" by (simp_all add: to_int64_def)
  have q: "lineQuery tail_db (to_int64 1) = Some (LineOffsets tail_db ! 0, AccessPoints tail_db ! 0)"
    unfolding t by (simp add: lineQuery_def tail_db_def covers_def)
  have "AccessPoints tail_db ! 0 \<in> set (AccessPoints (tables tail_built))"
    and "uncompressedOffset (AccessPoints tail_db ! 0) = Some 0"
    by (simp_all add: tail_built_def tail_db_def)
  from build_resumable [OF toy_build_tail a f toy_decodes_blocks toy_window_roundtrip this]
  have res: "resumable_at toy_zlib (bytes tail_file) tail_text toy_D (AccessPoints tail_db ! 0)" .
  have row: "LineOffsets tail_db ! 0 = rows_of 0 0 (split_lines tail_text) ! (1 - 1)"
    by (simp add: tail_lines tail_db_def)
  from getLine_sink_call [OF toy_decodes_raw f(2) q res _ _ row, of 12 "[]"]
  show ?thesis using f q row by (simp add: tail_lines t tail_db_def)
qed


end
